theory Spec2Isabelle
  imports Main "HOL-Library.Word" "HOL-Library.Log_Nat"
begin

section \<open>JavaScript strings\<close>

text \<open>
  A JavaScript string is a sequence of 16-bit code units. \<open>js\<close> writes an ASCII literal
  as such a sequence. The input file is read with \<open>fs.readFileSync(..., 'utf8')\<close>, so the
  program starts from an already decoded string.
\<close>

type_synonym jschar = "16 word"
type_synonym jsstring = "jschar list"

definition js :: "string \<Rightarrow> jsstring" where
  "js s = map of_char s"

abbreviation DQUOTE :: jschar where "DQUOTE \<equiv> 0x22"
abbreviation COMMA :: jschar where "COMMA \<equiv> 0x2C"
abbreviation LF :: jschar where "LF \<equiv> 0x0A"
abbreviation CR :: jschar where "CR \<equiv> 0x0D"
abbreviation BOM :: jschar where "BOM \<equiv> 0xFEFF"
abbreviation DOT :: jschar where "DOT \<equiv> 0x2E"

text \<open>
  \<open>String.prototype.trim\<close> removes the code units of ECMAScript's WhiteSpace and
  LineTerminator productions from both ends.
\<close>

definition is_ws :: "jschar \<Rightarrow> bool" where
  "is_ws c \<longleftrightarrow>
     c = 0x09 \<or> c = 0x0A \<or> c = 0x0B \<or> c = 0x0C \<or> c = 0x0D \<or> c = 0x20 \<or> c = 0xA0 \<or>
     c = 0x1680 \<or> (0x2000 \<le> c \<and> c \<le> 0x200A) \<or> c = 0x2028 \<or> c = 0x2029 \<or>
     c = 0x202F \<or> c = 0x205F \<or> c = 0x3000 \<or> c = 0xFEFF"

definition trim :: "jsstring \<Rightarrow> jsstring" where
  "trim s = rev (dropWhile is_ws (rev (dropWhile is_ws s)))"

section \<open>Objects used as dictionaries\<close>

text \<open>
  An object's own properties, in the order \<open>Object.entries\<close> and \<open>Object.keys\<close> list them:
  array-index keys first, in ascending numeric order, then the other keys in creation
  order. Assigning to an existing key keeps its place.
\<close>

type_synonym 'v jsobject = "(jsstring \<times> 'v) list"

definition is_digit :: "jschar \<Rightarrow> bool" where
  "is_digit c \<longleftrightarrow> 0x30 \<le> c \<and> c \<le> 0x39"

definition digits_value :: "jsstring \<Rightarrow> int" where
  "digits_value ds = foldl (\<lambda>acc c. acc * 10 + (uint c - 48)) 0 ds"

definition is_array_index :: "jsstring \<Rightarrow> bool" where
  "is_array_index k \<longleftrightarrow>
     k \<noteq> [] \<and> list_all is_digit k \<and> (hd k \<noteq> 0x30 \<or> length k = 1) \<and>
     digits_value k < 2 ^ 32 - 1"

definition comes_before :: "jsstring \<Rightarrow> jsstring \<Rightarrow> bool" where
  "comes_before k k' \<longleftrightarrow> is_array_index k' \<and> digits_value k' < digits_value k"

definition obj_set :: "'v jsobject \<Rightarrow> jsstring \<Rightarrow> 'v \<Rightarrow> 'v jsobject" where
  "obj_set ps k v =
     (if k \<in> fst ` set ps then map (\<lambda>(k', v'). if k' = k then (k', v) else (k', v')) ps
      else if is_array_index k then
        takeWhile (\<lambda>(k', _). comes_before k k') ps @ [(k, v)] @
        dropWhile (\<lambda>(k', _). comes_before k k') ps
      else ps @ [(k, v)])"

definition PROTO :: jsstring where
  "PROTO = js ''__proto__''"

text \<open>
  \<open>rec[k] = v\<close> on the record \<open>rec = {}\<close> with a string \<open>v\<close>. The key \<open>__proto__\<close> is
  the accessor inherited from \<open>Object.prototype\<close>; its setter ignores a value that is
  neither an object nor null, so the assignment creates no property.
\<close>

type_synonym flatrecord = "jsstring jsobject"

definition rec_assign :: "flatrecord \<Rightarrow> jsstring \<Rightarrow> jsstring \<Rightarrow> flatrecord" where
  "rec_assign r k v = (if k = PROTO then r else obj_set r k v)"

section \<open>Errors\<close>

datatype error =
    NoHeaders
  | MandatoryMissing jsstring jsstring jsstring
  | InvalidAge jsstring
  | TypeError
  | InsertFailed nat
  | CountOutOfRange

section \<open>The CSV parser\<close>

text \<open>
  \<open>parseCSVText\<close> keeps a position \<open>i\<close> into \<open>text\<close> that the nested
  \<open>readLineAsFields\<close> advances. The model carries the unread suffix \<open>drop i text\<close>, so
  \<open>i < len\<close> is "the suffix is not empty" and \<open>text[i + 1]\<close> is its second element.
  \<open>scanLine\<close> is the \<open>while (i < len)\<close> loop of \<open>readLineAsFields\<close>; it returns the
  fields pushed so far, the pending \<open>cur\<close> and the unread suffix.
\<close>

fun scanLine ::
  "jsstring \<Rightarrow> jsstring list \<Rightarrow> jsstring \<Rightarrow> bool \<Rightarrow> jsstring list \<times> jsstring \<times> jsstring"
where
  "scanLine [] fields cur inQuotes = (fields, cur, [])"
| "scanLine (ch # rest) fields cur inQuotes =
     (if ch = DQUOTE then
        (case rest of
           [] \<Rightarrow> scanLine rest fields cur (\<not> inQuotes)
         | c2 # rest2 \<Rightarrow>
             if inQuotes \<and> c2 = DQUOTE then scanLine rest2 fields (cur @ [DQUOTE]) inQuotes
             else scanLine rest fields cur (\<not> inQuotes))
      else if \<not> inQuotes \<and> ch = COMMA then scanLine rest (fields @ [cur]) [] inQuotes
      else if \<not> inQuotes \<and> (ch = LF \<or> ch = CR) then
        (fields @ [cur], [],
         (case rest of
            [] \<Rightarrow> rest
          | c2 # rest2 \<Rightarrow> if ch = CR \<and> c2 = LF then rest2 else rest))
      else scanLine rest fields (cur @ [ch]) inQuotes)"

definition readLineAsFields :: "jsstring \<Rightarrow> jsstring list \<times> jsstring" where
  "readLineAsFields s =
     (case scanLine s [] [] False of
        (fields, cur, rest) \<Rightarrow>
          (if rest = [] then (if cur \<noteq> [] \<or> fields \<noteq> [] then fields @ [cur] else fields)
           else fields,
           rest))"

text \<open>
  The body of the row loop: pad the fields with empty strings up to the number of
  headers, then assign \<open>rec[headers[k]] = fields[k].trim()\<close> for every header index.
\<close>

definition pad_fields :: "nat \<Rightarrow> jsstring list \<Rightarrow> jsstring list" where
  "pad_fields n fields = fields @ replicate (n - length fields) []"

definition build_rec :: "jsstring list \<Rightarrow> jsstring list \<Rightarrow> flatrecord" where
  "build_rec headers fields =
     foldl (\<lambda>r (h, f). rec_assign r h (trim f)) []
       (zip headers (pad_fields (length headers) fields))"

declare scanLine.simps [simp del]

lemma scanLine_rest_le:
  "length (snd (snd (scanLine s fields cur q))) \<le> length s - 1"
proof (induction s fields cur q rule: scanLine.induct)
  case (1 fields cur inQuotes)
  show ?case by (simp add: scanLine.simps(1))
next
  case (2 ch rest fields cur inQuotes)
  note ih = "2.IH"
  show ?case
  proof (cases rest)
    case Nil
    then show ?thesis by (simp add: scanLine.simps)
  next
    case (Cons c2 rest2)
    show ?thesis
      apply (subst scanLine.simps(2))
      using ih Cons
      apply (simp split: if_splits)
      apply auto
      done
  qed
qed

lemma scanLine_rest_less:
  "s \<noteq> [] \<Longrightarrow> length (snd (snd (scanLine s fields cur q))) < length s"
  using scanLine_rest_le [of s fields cur q] by (cases s) simp_all

lemma readLineAsFields_rest_less:
  "s \<noteq> [] \<Longrightarrow> length (snd (readLineAsFields s)) < length s"
  using scanLine_rest_less [of s "[]" "[]" False]
  by (cases "scanLine s [] [] False") (simp add: readLineAsFields_def)

function parse_rows :: "jsstring list \<Rightarrow> jsstring \<Rightarrow> flatrecord list" where
  "parse_rows headers s =
     (if s = [] then []
      else (case readLineAsFields s of
              (fields, rest) \<Rightarrow>
                if length fields = 1 \<and> fields ! 0 = [] \<and> rest = [] then []
                else build_rec headers fields # parse_rows headers rest))"
  by pat_completeness auto
termination
  apply (relation "measure (\<lambda>(headers, s). length s)")
   apply simp
  apply simp
  using readLineAsFields_rest_less apply (metis snd_conv)
  done

declare parse_rows.simps [simp del]

definition strip_bom :: "jsstring \<Rightarrow> jsstring" where
  "strip_bom text = (case text of [] \<Rightarrow> [] | c # rest \<Rightarrow> if c = BOM then rest else text)"

definition parseCSVText :: "jsstring \<Rightarrow> error + flatrecord list" where
  "parseCSVText text =
     (case readLineAsFields (strip_bom text) of
        (headerFields, rest) \<Rightarrow>
          if length headerFields = 0 then Inl NoHeaders
          else Inr (parse_rows (map trim headerFields) rest))"

section \<open>Properties of the line scanner\<close>

lemma scanLine_fields_mono:
  "length fields \<le> length (fst (scanLine s fields cur q))"
proof (induction s fields cur q rule: scanLine.induct)
  case (1 fields cur inQuotes)
  show ?case by (simp add: scanLine.simps(1))
next
  case (2 ch rest fields cur inQuotes)
  note ih = "2.IH"
  show ?case
    apply (subst scanLine.simps(2))
    using ih
    apply (cases rest)
     apply (auto split: if_splits)
    done
qed

lemma scanLine_no_field:
  "scanLine s fields cur q = (fields', [], rest') \<Longrightarrow> length fields' = length fields \<Longrightarrow>
   cur = [] \<and> (if q then s = [] \<or> s = [DQUOTE] else s = [] \<or> s = [DQUOTE] \<or> s = [DQUOTE, DQUOTE])"
proof (induction s fields cur q rule: scanLine.induct)
  case (1 fields cur inQuotes)
  then show ?case by (simp add: scanLine.simps(1))
next
  case (2 ch rest fields cur inQuotes)
  note ih = "2.IH" and eq = "2.prems"(1) and len = "2.prems"(2)
  have mono: "\<And>t f c b. length f \<le> length (fst (scanLine t f c b))"
    by (rule scanLine_fields_mono)
  show ?case
  proof (cases "ch = DQUOTE")
    case True
    show ?thesis
    proof (cases rest)
      case Nil
      with True eq show ?thesis by (simp add: scanLine.simps)
    next
      case (Cons c2 rest2)
      show ?thesis
      proof (cases "inQuotes \<and> c2 = DQUOTE")
        case esc: True
        have "scanLine rest2 fields (cur @ [DQUOTE]) inQuotes = (fields', [], rest')"
          using eq True Cons esc by (simp add: scanLine.simps(2))
        from ih(2) [OF True Cons esc this len] show ?thesis by simp
      next
        case noesc: False
        have "scanLine rest fields cur (\<not> inQuotes) = (fields', [], rest')"
          using eq True Cons noesc by (simp add: scanLine.simps(2))
        from ih(3) [OF True Cons noesc this len] show ?thesis
          using True Cons noesc by (auto split: if_splits)
      qed
    qed
  next
    case nq: False
    show ?thesis
    proof (cases "\<not> inQuotes \<and> ch = COMMA")
      case True
      have "scanLine rest (fields @ [cur]) [] inQuotes = (fields', [], rest')"
        using eq nq True by (simp add: scanLine.simps(2))
      with mono [of "fields @ [cur]" rest "[]" inQuotes] len show ?thesis by simp
    next
      case nc: False
      show ?thesis
      proof (cases "\<not> inQuotes \<and> (ch = LF \<or> ch = CR)")
        case True
        with eq nq nc len show ?thesis by (auto simp: scanLine.simps(2))
      next
        case False
        have "scanLine rest fields (cur @ [ch]) inQuotes = (fields', [], rest')"
          using eq nq nc False by (simp add: scanLine.simps(2))
        from ih(5) [OF nq nc False this len] show ?thesis by simp
      qed
    qed
  qed
qed

lemma scanLine_break_cur:
  "snd (snd (scanLine s fields cur q)) \<noteq> [] \<Longrightarrow> fst (snd (scanLine s fields cur q)) = []"
proof (induction s fields cur q rule: scanLine.induct)
  case (1 fields cur inQuotes)
  then show ?case by (simp add: scanLine.simps(1))
next
  case (2 ch rest fields cur inQuotes)
  note ih = "2.IH"
  show ?case
    using "2.prems"
    apply (subst (asm) scanLine.simps(2))
    apply (subst scanLine.simps(2))
    using ih
    apply (cases rest)
     apply (auto split: if_splits)
    done
qed

lemma readLineAsFields_empty_iff:
  "fst (readLineAsFields s) = [] \<longleftrightarrow> s = [] \<or> s = [DQUOTE] \<or> s = [DQUOTE, DQUOTE]"
proof
  assume a: "fst (readLineAsFields s) = []"
  obtain fs c r where sc: "scanLine s [] [] False = (fs, c, r)"
    by (cases "scanLine s [] [] False") auto
  from a sc have "fs = []"
    by (auto simp: readLineAsFields_def split: if_splits)
  moreover from a sc scanLine_break_cur [of s "[]" "[]" False] have "c = []"
    by (auto simp: readLineAsFields_def split: if_splits)
  ultimately have "fs = []" and "c = []" by simp_all
  with scanLine_no_field [of s "[]" "[]" False fs r] sc show "s = [] \<or> s = [DQUOTE] \<or> s = [DQUOTE, DQUOTE]"
    by simp
next
  assume "s = [] \<or> s = [DQUOTE] \<or> s = [DQUOTE, DQUOTE]"
  then show "fst (readLineAsFields s) = []"
    by (auto simp: readLineAsFields_def scanLine.simps)
qed

section \<open>Quoted fields, empty lines and the records built from them\<close>

text \<open>
  A field written with RFC 4180 quoting: the content between double quotes, every double
  quote of the content doubled.
\<close>

definition escape :: "jsstring \<Rightarrow> jsstring" where
  "escape s = concat (map (\<lambda>c. if c = DQUOTE then [DQUOTE, DQUOTE] else [c]) s)"

definition quote :: "jsstring \<Rightarrow> jsstring" where
  "quote s = DQUOTE # escape s @ [DQUOTE]"

lemma scanLine_open_quote:
  "scanLine (DQUOTE # rest) fs cur False = scanLine rest fs cur True"
  by (cases rest) (simp_all add: scanLine.simps)

lemma scanLine_quoted:
  "rest = [] \<or> hd rest \<noteq> DQUOTE \<Longrightarrow>
   scanLine (escape s @ DQUOTE # rest) fs cur True = scanLine rest fs (cur @ s) False"
proof (induction s arbitrary: cur)
  case Nil
  then show ?case by (cases rest) (simp_all add: escape_def scanLine.simps)
next
  case (Cons c s)
  show ?case
  proof (cases "c = DQUOTE")
    case True
    have "escape (c # s) @ DQUOTE # rest = DQUOTE # DQUOTE # (escape s @ DQUOTE # rest)"
      using True by (simp add: escape_def)
    then have "scanLine (escape (c # s) @ DQUOTE # rest) fs cur True =
        scanLine (escape s @ DQUOTE # rest) fs (cur @ [DQUOTE]) True"
      by (simp add: scanLine.simps(2))
    with Cons.IH [OF Cons.prems, of "cur @ [DQUOTE]"] True show ?thesis by simp
  next
    case False
    have "escape (c # s) @ DQUOTE # rest = c # (escape s @ DQUOTE # rest)"
      using False by (simp add: escape_def)
    then have "scanLine (escape (c # s) @ DQUOTE # rest) fs cur True =
        scanLine (escape s @ DQUOTE # rest) fs (cur @ [c]) True"
      using False by (simp add: scanLine.simps(2))
    with Cons.IH [OF Cons.prems, of "cur @ [c]"] show ?thesis by simp
  qed
qed

lemma scanLine_quote:
  "rest = [] \<or> hd rest \<noteq> DQUOTE \<Longrightarrow>
   scanLine (quote s @ rest) fs cur False = scanLine rest fs (cur @ s) False"
  using scanLine_quoted [of rest s fs cur]
  by (simp add: quote_def scanLine_open_quote)

lemma trim_all_ws: "list_all is_ws s \<Longrightarrow> trim s = []"
  by (auto simp: trim_def list_all_iff dest: set_dropWhileD)

lemma trim_last_not_ws: "trim s \<noteq> [] \<Longrightarrow> \<not> is_ws (last (trim s))"
proof -
  assume a: "trim s \<noteq> []"
  let ?t = "dropWhile is_ws (rev (dropWhile is_ws s))"
  from a have ne: "?t \<noteq> []" by (simp add: trim_def)
  then have "\<not> is_ws (hd ?t)" by (rule hd_dropWhile)
  moreover have "last (trim s) = hd ?t" using ne by (simp add: trim_def last_rev)
  ultimately show ?thesis by simp
qed

lemma quoted_line3:
  "readLineAsFields (js ''a,'' @ quote s @ js '',d'') = ([js ''a'', s, js ''d''], [])"
proof -
  have "scanLine (js ''a,'' @ quote s @ js '',d'') [] [] False =
        scanLine (quote s @ js '',d'') [js ''a''] [] False"
    by (simp add: js_def scanLine.simps)
  also have "\<dots> = scanLine (js '',d'') [js ''a''] s False"
    using scanLine_quote [of "js '',d''" s "[js ''a'']" "[]"] by (simp add: js_def)
  also have "\<dots> = ([js ''a'', s], js ''d'', [])"
    by (simp add: js_def scanLine.simps)
  finally show ?thesis by (simp add: readLineAsFields_def js_def)
qed

lemma header3: "r \<noteq> [] \<Longrightarrow> readLineAsFields (js ''x,y,z'' @ LF # r) = ([js ''x'', js ''y'', js ''z''], r)"
  by (cases r) (simp_all add: js_def readLineAsFields_def scanLine.simps)


lemma quoted_line2:
  "readLineAsFields (quote s @ js '',1'') = ([s, js ''1''], [])"
proof -
  have "scanLine (quote s @ js '',1'') [] [] False = scanLine (js '',1'') [] s False"
    using scanLine_quote [of "js '',1''" s "[]" "[]"] by (simp add: js_def)
  also have "\<dots> = ([s], js ''1'', [])"
    by (simp add: js_def scanLine.simps)
  finally show ?thesis by (simp add: readLineAsFields_def js_def)
qed

lemma header2: "r \<noteq> [] \<Longrightarrow> readLineAsFields (js ''k,v'' @ LF # r) = ([js ''k'', js ''v''], r)"
  by (cases r) (simp_all add: js_def readLineAsFields_def scanLine.simps)


lemma obj_set_all_empty:
  "\<forall>p \<in> set ps. snd p = [] \<Longrightarrow> \<forall>p \<in> set (obj_set ps k []). snd p = []"
  by (auto simp: obj_set_def dest: set_takeWhileD set_dropWhileD split: if_splits)

lemma keys_map_replace:
  "map fst (map (\<lambda>(k', v'). if k' = k then (k', v) else (k', v')) ps) = map fst ps"
  by (induction ps) auto

lemma keys_obj_set: "fst ` set (obj_set ps k v) = insert k (fst ` set ps)"
proof (cases "k \<in> fst ` set ps")
  case True
  have "fst ` set (map (\<lambda>(k', v'). if k' = k then (k', v) else (k', v')) ps) = fst ` set ps"
    using keys_map_replace [of k v ps] by (metis set_map)
  with True show ?thesis by (auto simp: obj_set_def)
next
  case False
  have "set (takeWhile Q ps @ [(k, v)] @ dropWhile Q ps) = insert (k, v) (set ps)" for Q
  proof -
    have "set (takeWhile Q ps) \<union> set (dropWhile Q ps) = set ps"
      by (metis set_append takeWhile_dropWhile_id)
    then show ?thesis by auto
  qed
  with False show ?thesis by (simp add: obj_set_def)
qed

lemma foldl_rec_assign_empty:
  "\<forall>p \<in> set r0. snd p = [] \<Longrightarrow>
   (\<forall>p \<in> set (foldl (\<lambda>r (h, f). rec_assign r h (trim f)) r0 (map (\<lambda>h. (h, [])) hs)). snd p = []) \<and>
   fst ` set (foldl (\<lambda>r (h, f). rec_assign r h (trim f)) r0 (map (\<lambda>h. (h, [])) hs)) =
     fst ` set r0 \<union> (set hs - {PROTO})"
proof (induction hs arbitrary: r0)
  case Nil
  then show ?case by simp
next
  case (Cons h hs)
  have t: "trim [] = []" by (simp add: trim_def)
  have v: "\<forall>p \<in> set (rec_assign r0 h []). snd p = []"
    using Cons.prems obj_set_all_empty [of r0 h] by (simp add: rec_assign_def)
  have k: "fst ` set (rec_assign r0 h []) = fst ` set r0 \<union> ({h} - {PROTO})"
    using keys_obj_set [of r0 h "[]"] by (auto simp: rec_assign_def)
  from Cons.IH [OF v] k show ?case by (auto simp: t)
qed

lemma pad_empty: "zip hs (pad_fields (length hs) [[]]) = map (\<lambda>h. (h, [])) hs"
proof (cases hs)
  case Nil
  then show ?thesis by simp
next
  case (Cons h hs')
  have "zip hs' (replicate (length hs') []) = map (\<lambda>h. (h, [])) hs'"
    by (induction hs') auto
  then show ?thesis using Cons by (simp add: pad_fields_def)
qed

lemma build_rec_empty:
  "\<forall>p \<in> set (build_rec hs [[]]). snd p = []" "fst ` set (build_rec hs [[]]) = set hs - {PROTO}"
  using foldl_rec_assign_empty [of "[]" hs] by (simp_all add: build_rec_def pad_empty)


lemma empty_line_LF:
  "rest \<noteq> [] \<Longrightarrow> parse_rows hs (LF # rest) = build_rec hs [[]] # parse_rows hs rest"
  by (subst parse_rows.simps) (cases rest, simp_all add: readLineAsFields_def scanLine.simps)

lemma empty_line_CRLF:
  "rest \<noteq> [] \<Longrightarrow> parse_rows hs (CR # LF # rest) = build_rec hs [[]] # parse_rows hs rest"
  by (subst parse_rows.simps) (cases rest, simp_all add: readLineAsFields_def scanLine.simps)

lemma empty_line_CR:
  "rest \<noteq> [] \<Longrightarrow> hd rest \<noteq> LF \<Longrightarrow>
   parse_rows hs (CR # rest) = build_rec hs [[]] # parse_rows hs rest"
  by (subst parse_rows.simps) (cases rest, simp_all add: readLineAsFields_def scanLine.simps)


section \<open>Numbers\<close>

text \<open>
  The Numbers this program holds are integral or not finite: \<open>Num n\<close> is the finite
  Number of integral value \<open>n\<close> (\<open>+0\<close> and \<open>-0\<close> are both \<open>Num 0\<close>).
  \<open>nearest_double\<close> rounds a non-negative integer to the nearest IEEE 754 double, ties to
  even; integers below \<open>2^53\<close> are doubles themselves. A value that rounds to \<open>2^1024\<close> or
  more is an infinity.
\<close>

datatype jsnum = NaN | PosInf | NegInf | Num int

definition nearest_double :: "int \<Rightarrow> int" where
  "nearest_double a =
     (if a < 2 ^ 53 then a
      else (let e = nat (bitlen a - 53);
                q = a div 2 ^ e;
                r = a mod 2 ^ e;
                half = 2 ^ (e - 1)
            in (if r < half \<or> (r = half \<and> even q) then q else q + 1) * 2 ^ e))"

definition to_number :: "int \<Rightarrow> jsnum" where
  "to_number n =
     (let m = nearest_double \<bar>n\<bar>
      in if 2 ^ 1024 \<le> m then (if n < 0 then NegInf else PosInf) else Num (sgn n * m))"

text \<open>
  \<open>parseInt(s, 10)\<close>: skip leading white space, read an optional sign, take the longest
  prefix of decimal digits; no digit gives \<open>NaN\<close>, and anything after the digits is
  ignored.
\<close>

abbreviation PLUS :: jschar where "PLUS \<equiv> 0x2B"
abbreviation MINUS :: jschar where "MINUS \<equiv> 0x2D"
abbreviation SPACE :: jschar where "SPACE \<equiv> 0x20"

definition parseInt10 :: "jsstring \<Rightarrow> jsnum" where
  "parseInt10 s =
     (let t = dropWhile is_ws s;
          neg = (case t of [] \<Rightarrow> False | c # _ \<Rightarrow> c = MINUS);
          u = (case t of [] \<Rightarrow> [] | c # rest \<Rightarrow> if c = PLUS \<or> c = MINUS then rest else t);
          z = takeWhile is_digit u
      in if z = [] then NaN else to_number ((if neg then - 1 else 1) * digits_value z))"

section \<open>Objects on the heap\<close>

text \<open>
  \<open>setNested\<close> walks and mutates objects through the reference \<open>cur\<close>, and the key
  \<open>__proto__\<close> makes \<open>cur\<close> the shared \<open>Object.prototype\<close>. The model therefore keeps an
  explicit store: an address names an object, address \<open>0\<close> is \<open>Object.prototype\<close>, and
  a property holds a string, a built-in function or a reference. Every other object is
  created by \<open>{}\<close> and has \<open>Object.prototype\<close> as its prototype.
\<close>

datatype jsval = Str jsstring | Fun | Ref nat

record heap =
  objs :: "nat \<Rightarrow> jsval jsobject"
  next_addr :: nat

text \<open>The own data properties of \<open>Object.prototype\<close> at start-up; all are functions.\<close>

definition proto_builtins :: "jsval jsobject" where
  "proto_builtins =
     map (\<lambda>k. (js k, Fun))
       [''constructor'', ''__defineGetter__'', ''__defineSetter__'', ''hasOwnProperty'',
        ''__lookupGetter__'', ''__lookupSetter__'', ''isPrototypeOf'',
        ''propertyIsEnumerable'', ''toString'', ''valueOf'', ''toLocaleString'']"

definition initial_heap :: heap where
  "initial_heap = \<lparr>objs = (\<lambda>a. if a = 0 then proto_builtins else []), next_addr = 1\<rparr>"

text \<open>
  Reading \<open>cur[p]\<close> for a key other than \<open>__proto__\<close>: the own property, else the one
  inherited from \<open>Object.prototype\<close>; \<open>None\<close> is \<open>undefined\<close>.
\<close>

definition lookup_property :: "heap \<Rightarrow> nat \<Rightarrow> jsstring \<Rightarrow> jsval option" where
  "lookup_property h a p =
     (case map_of (objs h a) p of
        Some v \<Rightarrow> Some v
      | None \<Rightarrow> if a = 0 then None else map_of (objs h 0) p)"

text \<open>\<open>p in cur\<close>. The accessor \<open>__proto__\<close> of \<open>Object.prototype\<close> is found from every object.\<close>

definition has_property :: "heap \<Rightarrow> nat \<Rightarrow> jsstring \<Rightarrow> bool" where
  "has_property h a p \<longleftrightarrow> p = PROTO \<or> lookup_property h a p \<noteq> None"

text \<open>
  \<open>typeof cur[p] === 'object'\<close>. The getter \<open>__proto__\<close> returns \<open>Object.prototype\<close>, or
  \<open>null\<close> on \<open>Object.prototype\<close> itself; both are of type \<open>'object'\<close>.
\<close>

definition typeof_object :: "heap \<Rightarrow> nat \<Rightarrow> jsstring \<Rightarrow> bool" where
  "typeof_object h a p \<longleftrightarrow>
     p = PROTO \<or> (case lookup_property h a p of Some (Ref b) \<Rightarrow> True | _ \<Rightarrow> False)"

text \<open>
  \<open>cur[p] = v\<close>. For \<open>__proto__\<close> this calls the inherited setter, which ignores a value
  that is not an object: \<open>setNested\<close> stores only strings under that key, because
  \<open>__proto__\<close> is always \<open>in cur\<close> and always of type \<open>'object'\<close>, so no property is
  created. The built-in methods are writable, so assigning under their names creates an
  own property like under any other name.
\<close>

definition assign_property :: "heap \<Rightarrow> nat \<Rightarrow> jsstring \<Rightarrow> jsval \<Rightarrow> heap" where
  "assign_property h a p v =
     (if p = PROTO then h else h\<lparr>objs := (objs h)(a := obj_set (objs h a) p v)\<rparr>)"

text \<open>\<open>cur[p] = {}\<close>: a fresh empty object, stored under \<open>p\<close>.\<close>

definition assign_new_object :: "heap \<Rightarrow> nat \<Rightarrow> jsstring \<Rightarrow> heap" where
  "assign_new_object h a p =
     assign_property
       (h\<lparr>objs := (objs h)(next_addr h := []), next_addr := Suc (next_addr h)\<rparr>)
       a p (Ref (next_addr h))"

text \<open>
  The value of \<open>cur\<close> in \<open>setNested\<close>: an object, or \<open>null\<close> after reading
  \<open>Object.prototype.__proto__\<close>. \<open>step_into\<close> is \<open>cur = cur[p]\<close>, which runs only when
  \<open>cur[p]\<close> is of type \<open>'object'\<close> (lemma \<open>step_into_object\<close> below).
\<close>

datatype cursor = AtObj nat | AtNull

definition step_into :: "heap \<Rightarrow> nat \<Rightarrow> jsstring \<Rightarrow> cursor" where
  "step_into h a p =
     (if p = PROTO then (if a = 0 then AtNull else AtObj 0)
      else (case lookup_property h a p of Some (Ref b) \<Rightarrow> AtObj b | _ \<Rightarrow> AtNull))"

text \<open>\<open>path.split('.')\<close>; the result is never empty.\<close>

definition split_dot :: "jsstring \<Rightarrow> jsstring list" where
  "split_dot s = foldr (\<lambda>c acc. if c = DOT then [] # acc else (c # hd acc) # tl acc) s [[]]"

text \<open>
  The loop of \<open>setNested\<close> over \<open>parts\<close>, from position \<open>i\<close> on. Using \<open>in\<close> on \<open>null\<close>,
  or assigning a property of \<open>null\<close>, throws a \<open>TypeError\<close>; the heap as changed so far
  stays.
\<close>

fun setNested_loop :: "heap \<Rightarrow> cursor \<Rightarrow> jsstring list \<Rightarrow> jsstring \<Rightarrow> error option \<times> heap" where
  "setNested_loop h cur [] v = (None, h)"
| "setNested_loop h AtNull (p # ps) v = (Some TypeError, h)"
| "setNested_loop h (AtObj a) [p] v = (None, assign_property h a p (Str v))"
| "setNested_loop h (AtObj a) (p # q # ps) v =
     (let h1 = (if \<not> has_property h a p then assign_new_object h a p else h);
          h2 = (if \<not> typeof_object h1 a p then assign_new_object h1 a p else h1)
      in setNested_loop h2 (step_into h2 a p) (q # ps) v)"

definition setNested :: "heap \<Rightarrow> nat \<Rightarrow> jsstring \<Rightarrow> jsstring \<Rightarrow> error option \<times> heap" where
  "setNested h obj path v = setNested_loop h (AtObj obj) (split_dot path) v"

section \<open>The record mapper\<close>

record document =
  name :: jsstring
  age :: jsnum
  address :: "nat option"
  additional_info :: "nat option"

definition K_FIRST :: jsstring where "K_FIRST = js ''name.firstName''"
definition K_LAST :: jsstring where "K_LAST = js ''name.lastName''"
definition K_AGE :: jsstring where "K_AGE = js ''age''"
definition ADDRESS_DOT :: jsstring where "ADDRESS_DOT = js ''address.''"

text \<open>
  \<open>(rec[k] || '').trim()\<close>. The record is an ordinary object, so a key it does not own
  is looked up on \<open>Object.prototype\<close>. A missing or empty value gives the empty string;
  a value that is not a string has no \<open>trim\<close> method, and calling it throws.
\<close>

definition rec_field :: "heap \<Rightarrow> flatrecord \<Rightarrow> jsstring \<Rightarrow> error + jsstring" where
  "rec_field h r k =
     (case map_of r k of
        Some s \<Rightarrow> Inr (trim s)
      | None \<Rightarrow>
          (case map_of (objs h 0) k of
             None \<Rightarrow> Inr []
           | Some (Str s) \<Rightarrow> Inr (trim s)
           | Some _ \<Rightarrow> Inl TypeError))"

text \<open>The \<open>for (const [k, vRaw] of Object.entries(rec))\<close> loop.\<close>

fun map_entries :: "heap \<Rightarrow> nat \<Rightarrow> nat \<Rightarrow> flatrecord \<Rightarrow> error option \<times> heap" where
  "map_entries h addr addl [] = (None, h)"
| "map_entries h addr addl ((k, v) # entries) =
     (if k = K_FIRST \<or> k = K_LAST \<or> k = K_AGE then map_entries h addr addl entries
      else (case (if take (length ADDRESS_DOT) k = ADDRESS_DOT
                  then setNested h addr (drop (length ADDRESS_DOT) k) v
                  else setNested h addl k v) of
              (Some e, h') \<Rightarrow> (Some e, h')
            | (None, h') \<Rightarrow> map_entries h' addr addl entries))"

definition new_object :: "heap \<Rightarrow> nat \<times> heap" where
  "new_object h =
     (next_addr h, h\<lparr>objs := (objs h)(next_addr h := []), next_addr := Suc (next_addr h)\<rparr>)"

definition mapRecordToDb :: "heap \<Rightarrow> flatrecord \<Rightarrow> (error + document) \<times> heap" where
  "mapRecordToDb h r =
     (case rec_field h r K_FIRST of
        Inl e \<Rightarrow> (Inl e, h)
      | Inr firstName \<Rightarrow>
     (case rec_field h r K_LAST of
        Inl e \<Rightarrow> (Inl e, h)
      | Inr lastName \<Rightarrow>
     (case rec_field h r K_AGE of
        Inl e \<Rightarrow> (Inl e, h)
      | Inr ageRaw \<Rightarrow>
          if firstName = [] \<or> lastName = [] \<or> ageRaw = []
          then (Inl (MandatoryMissing firstName lastName ageRaw), h)
          else if parseInt10 ageRaw = NaN then (Inl (InvalidAge ageRaw), h)
          else (case new_object h of (addr, h1) \<Rightarrow>
               (case new_object h1 of (addl, h2) \<Rightarrow>
               (case map_entries h2 addr addl r of
                  (Some e, h3) \<Rightarrow> (Inl e, h3)
                | (None, h3) \<Rightarrow>
                    (Inr \<lparr>name = firstName @ [SPACE] @ lastName,
                          age = parseInt10 ageRaw,
                          address = (if objs h3 addr \<noteq> [] then Some addr else None),
                          additional_info = (if objs h3 addl \<noteq> [] then Some addl else None)\<rparr>,
                     h3)))))))"


text \<open>
  Vocabulary for the mapper's claims: the trimmed value of a field the record owns (empty
  when the key is missing), and a text that begins with an optionally signed decimal digit.
\<close>

definition trimmed_field :: "flatrecord \<Rightarrow> jsstring \<Rightarrow> jsstring" where
  "trimmed_field r k = (case map_of r k of None \<Rightarrow> [] | Some s \<Rightarrow> trim s)"

definition starts_with_integer :: "jsstring \<Rightarrow> bool" where
  "starts_with_integer t =
     (case t of
        [] \<Rightarrow> False
      | c # rest \<Rightarrow>
          if c = PLUS \<or> c = MINUS then (case rest of [] \<Rightarrow> False | d # _ \<Rightarrow> is_digit d)
          else is_digit c)"

section \<open>Properties of the mapper\<close>

lemma rev_dropWhile_takeWhile: "rev (dropWhile P r) @ rev (takeWhile P r) = rev r"
  by (metis rev_append takeWhile_dropWhile_id)

lemma trim_prefix: "dropWhile is_ws s = trim s @ rev (takeWhile is_ws (rev (dropWhile is_ws s)))"
  using rev_dropWhile_takeWhile [of is_ws "rev (dropWhile is_ws s)"] by (simp add: trim_def)

lemma trim_hd_not_ws: "trim s = c # rest \<Longrightarrow> \<not> is_ws c"
proof -
  assume a: "trim s = c # rest"
  with trim_prefix [of s] have "dropWhile is_ws s = c # (rest @ rev (takeWhile is_ws (rev (dropWhile is_ws s))))"
    by simp
  then show ?thesis
    by (metis hd_dropWhile list.distinct(1) list.sel(1))
qed

lemma dropWhile_trim: "dropWhile is_ws (trim s) = trim s"
  by (cases "trim s") (auto dest: trim_hd_not_ws)

lemma to_number_not_NaN: "to_number n \<noteq> NaN"
  by (simp add: to_number_def Let_def)

lemma takeWhile_nonempty: "takeWhile P u \<noteq> [] \<longleftrightarrow> (case u of [] \<Rightarrow> False | d # _ \<Rightarrow> P d)"
  by (cases u) auto

lemma parseInt10_NaN_iff:
  assumes "dropWhile is_ws t = t"
  shows "parseInt10 t = NaN \<longleftrightarrow> \<not> starts_with_integer t"
proof (cases t)
  case Nil
  then show ?thesis by (simp add: parseInt10_def starts_with_integer_def)
next
  case (Cons c rest)
  show ?thesis
  proof (cases "c = PLUS \<or> c = MINUS")
    case True
    have "parseInt10 t = NaN \<longleftrightarrow> takeWhile is_digit rest = []"
      unfolding parseInt10_def assms Let_def using Cons True
      by (simp add: to_number_not_NaN del: takeWhile_eq_Nil_iff)
    moreover have "starts_with_integer t \<longleftrightarrow> takeWhile is_digit rest \<noteq> []"
      using Cons True takeWhile_nonempty [of is_digit rest]
      by (simp add: starts_with_integer_def del: takeWhile_eq_Nil_iff)
    ultimately show ?thesis by simp
  next
    case False
    have "parseInt10 t = NaN \<longleftrightarrow> takeWhile is_digit (c # rest) = []"
      unfolding parseInt10_def assms Let_def using Cons False
      by (simp add: to_number_not_NaN del: takeWhile_eq_Nil_iff)
    moreover have "starts_with_integer t \<longleftrightarrow> takeWhile is_digit (c # rest) \<noteq> []"
      using Cons False by (simp add: starts_with_integer_def)
    ultimately show ?thesis by simp
  qed
qed

lemma parseInt10_trim_NaN: "parseInt10 (trim s) = NaN \<longleftrightarrow> \<not> starts_with_integer (trim s)"
  by (rule parseInt10_NaN_iff) (rule dropWhile_trim)

lemma proto_builtins_keys:
  "map_of proto_builtins K_FIRST = None" "map_of proto_builtins K_LAST = None"
  "map_of proto_builtins K_AGE = None"
  by code_simp+

lemma rec_field_clean:
  "objs h 0 = proto_builtins \<Longrightarrow> k = K_FIRST \<or> k = K_LAST \<or> k = K_AGE \<Longrightarrow>
   rec_field h r k = Inr (trimmed_field r k)"
  by (auto simp: rec_field_def trimmed_field_def proto_builtins_keys split: option.splits)

lemma map_of_after_prefix:
  "k \<notin> fst ` set xs \<Longrightarrow> map_of (xs @ (k, v) # ys) k = Some v"
  by (induction xs) auto

lemma map_of_replace:
  "k \<in> fst ` set ps \<Longrightarrow>
   map_of (map (\<lambda>(k', v'). if k' = k then (k', v) else (k', v')) ps) k = Some v"
  by (induction ps) auto

lemma map_of_obj_set_same: "map_of (obj_set ps k v) k = Some v"
proof (cases "k \<in> fst ` set ps")
  case True
  then show ?thesis by (simp add: obj_set_def map_of_replace)
next
  case False
  have "k \<notin> fst ` set (takeWhile Q ps)" for Q
    using False by (auto dest!: set_takeWhileD)
  from map_of_after_prefix [OF this] map_of_after_prefix [OF False, of v "[]"] False
  show ?thesis by (simp add: obj_set_def del: map_of_append)
qed

lemma step_into_object:
  fixes h a p
  defines "h1 \<equiv> (if \<not> has_property h a p then assign_new_object h a p else h)"
  defines "h2 \<equiv> (if \<not> typeof_object h1 a p then assign_new_object h1 a p else h1)"
  assumes "p \<noteq> PROTO"
  shows "\<exists>b. step_into h2 a p = AtObj b"
proof (cases "typeof_object h1 a p")
  case True
  then have "h2 = h1" by (simp add: h2_def)
  moreover from True assms(3) obtain b where "lookup_property h1 a p = Some (Ref b)"
    by (auto simp: typeof_object_def split: option.splits jsval.splits)
  ultimately show ?thesis using assms(3) by (simp add: step_into_def)
next
  case False
  then have "h2 = assign_new_object h1 a p" by (simp add: h2_def)
  then have "lookup_property h2 a p = Some (Ref (next_addr h1))"
    using assms(3)
    by (simp add: assign_new_object_def assign_property_def lookup_property_def map_of_obj_set_same)
  then show ?thesis using assms(3) by (simp add: step_into_def)
qed

lemma setNested_loop_no_error:
  "PROTO \<notin> set ps \<Longrightarrow> fst (setNested_loop h (AtObj a) ps v) = None"
proof (induction ps arbitrary: h a)
  case Nil
  show ?case by simp
next
  case (Cons p ps)
  show ?case
  proof (cases ps)
    case Nil
    then show ?thesis by simp
  next
    case (Cons q qs)
    from Cons.prems have "p \<noteq> PROTO" by auto
    from step_into_object [OF this, of h a] obtain b where
      "step_into (if \<not> typeof_object (if \<not> has_property h a p then assign_new_object h a p else h) a p
          then assign_new_object (if \<not> has_property h a p then assign_new_object h a p else h) a p
          else (if \<not> has_property h a p then assign_new_object h a p else h)) a p = AtObj b"
      by blast
    then show ?thesis
      using Cons Cons.IH Cons.prems by (simp add: Let_def)
  qed
qed

lemma split_dot_nonempty: "split_dot s \<noteq> []"
  by (induction s) (auto simp: split_dot_def)

lemma split_dot_Cons:
  "split_dot (c # s) = (if c = DOT then [] # split_dot s
                        else (c # hd (split_dot s)) # tl (split_dot s))"
  by (simp add: split_dot_def)

lemma split_dot_append: "split_dot (s @ DOT # t) = split_dot s @ split_dot t"
proof (induction s)
  case Nil
  show ?case by (simp add: split_dot_def)
next
  case (Cons c s)
  then show ?case
    using split_dot_nonempty [of s] by (cases "split_dot s") (auto simp: split_dot_Cons)
qed

lemma address_path_segments:
  assumes "take (length ADDRESS_DOT) k = ADDRESS_DOT"
  shows "set (split_dot (drop (length ADDRESS_DOT) k)) \<subseteq> set (split_dot k)"
proof -
  have ad: "ADDRESS_DOT = js ''address'' @ [DOT]" by (simp add: ADDRESS_DOT_def js_def)
  have "k = ADDRESS_DOT @ drop (length ADDRESS_DOT) k"
    using assms by (metis append_take_drop_id)
  then have "k = js ''address'' @ DOT # drop (length ADDRESS_DOT) k"
    by (simp add: ad)
  then have "split_dot k = split_dot (js ''address'') @ split_dot (drop (length ADDRESS_DOT) k)"
    using split_dot_append [of "js ''address''" "drop (length ADDRESS_DOT) k"] by simp
  then show ?thesis by simp
qed

lemma map_entries_no_error:
  "\<forall>k \<in> fst ` set r. PROTO \<notin> set (split_dot k) \<Longrightarrow> fst (map_entries h addr addl r) = None"
proof (induction r arbitrary: h)
  case Nil
  show ?case by simp
next
  case (Cons kv r)
  obtain k v where kv: "kv = (k, v)" by (cases kv)
  from Cons.prems kv have k: "PROTO \<notin> set (split_dot k)" by simp
  from Cons.prems have rest: "\<forall>k \<in> fst ` set r. PROTO \<notin> set (split_dot k)" by simp
  have a: "fst (setNested h addl k v) = None"
    using k by (simp add: setNested_def setNested_loop_no_error)
  have b: "take (length ADDRESS_DOT) k = ADDRESS_DOT \<Longrightarrow>
      fst (setNested h addr (drop (length ADDRESS_DOT) k) v) = None"
    using k address_path_segments [of k]
    by (auto simp: setNested_def intro!: setNested_loop_no_error)
  show ?case
    using a b Cons.IH [OF rest] kv
    by (auto split: prod.splits option.splits)
qed

lemma dropWhile_trimmed_field: "dropWhile is_ws (trimmed_field r k) = trimmed_field r k"
  by (simp add: trimmed_field_def dropWhile_trim split: option.splits)

lemma mapRecordToDb_clean:
  assumes "objs h 0 = proto_builtins"
  shows "mapRecordToDb h r =
     (let firstName = trimmed_field r K_FIRST;
          lastName = trimmed_field r K_LAST;
          ageRaw = trimmed_field r K_AGE
      in if firstName = [] \<or> lastName = [] \<or> ageRaw = []
         then (Inl (MandatoryMissing firstName lastName ageRaw), h)
         else if parseInt10 ageRaw = NaN then (Inl (InvalidAge ageRaw), h)
         else (case new_object h of (addr, h1) \<Rightarrow>
              (case new_object h1 of (addl, h2) \<Rightarrow>
              (case map_entries h2 addr addl r of
                 (Some e, h3) \<Rightarrow> (Inl e, h3)
               | (None, h3) \<Rightarrow>
                   (Inr \<lparr>name = firstName @ [SPACE] @ lastName,
                         age = parseInt10 ageRaw,
                         address = (if objs h3 addr \<noteq> [] then Some addr else None),
                         additional_info = (if objs h3 addl \<noteq> [] then Some addl else None)\<rparr>,
                    h3)))))"
  unfolding mapRecordToDb_def Let_def
  by (simp only: rec_field_clean [OF assms] sum.case simp_thms)

lemma nearest_double_small: "a < 2 ^ 53 \<Longrightarrow> nearest_double a = a"
  by (simp add: nearest_double_def)

lemma to_number_exact: "\<bar>n\<bar> < 2 ^ 53 \<Longrightarrow> to_number n = Num n"
proof -
  assume a: "\<bar>n\<bar> < 2 ^ 53"
  have "(2::int) ^ 53 \<le> 2 ^ 1024" by (rule power_increasing) simp_all
  with a have "\<not> 2 ^ 1024 \<le> \<bar>n\<bar>" by linarith
  moreover have "sgn n * \<bar>n\<bar> = n" by (simp add: sgn_mult_abs)
  ultimately show ?thesis using a by (simp add: to_number_def nearest_double_small)
qed

text \<open>
  A value of \<open>2^1024\<close> or more rounds to \<open>2^1024\<close> or more, so it overflows whatever
  its digits are; evaluation decides that first and rounds only smaller values.
\<close>

lemma nearest_double_overflow:
  assumes "2 ^ 1024 \<le> a"
  shows "2 ^ 1024 \<le> nearest_double a"
proof -
  define e where "e = nat (bitlen a - 53)"
  define q where "q = a div 2 ^ e"
  have big: "(2::int) ^ 53 \<le> 2 ^ 1024" by (rule power_increasing) simp_all
  have pos: "0 < a" using assms by (rule less_le_trans [rotated]) simp
  from bitlen_bounds [OF pos] have lo: "2 ^ nat (bitlen a - 1) \<le> a" and hi: "a < 2 ^ nat (bitlen a)"
    by simp_all
  have "(2::int) ^ 1024 < 2 ^ nat (bitlen a)" using assms hi by (rule le_less_trans)
  then have "1024 < nat (bitlen a)"
    by (rule power_less_imp_less_exp [rotated]) simp
  then have n: "nat (bitlen a - 1) = e + 52" "1024 \<le> e + 52" by (simp_all add: e_def)
  have p: "(2::int) ^ (e + 52) = 2 ^ 52 * 2 ^ e" by (simp only: power_add mult.commute)
  have "(2 ^ 52 * 2 ^ e) div 2 ^ e \<le> a div (2::int) ^ e"
    using lo unfolding n p by (rule zdiv_mono1) simp
  then have q52: "2 ^ 52 \<le> q" by (simp add: q_def)
  have "(2::int) ^ 1024 \<le> 2 ^ (e + 52)" using n(2) by (intro power_increasing) simp_all
  also have "\<dots> = 2 ^ 52 * 2 ^ e" by (rule p)
  also have "\<dots> \<le> q * 2 ^ e" using q52 by (intro mult_right_mono) simp_all
  finally have r1: "2 ^ 1024 \<le> q * 2 ^ e" .
  have "q * 2 ^ e \<le> (q + 1) * 2 ^ e" by (intro mult_right_mono) simp_all
  with r1 have r2: "2 ^ 1024 \<le> (q + 1) * 2 ^ e" by (rule order_trans)
  have "\<not> a < 2 ^ 53" using big assms by (meson leD order_trans)
  then show ?thesis
    using r1 r2 unfolding nearest_double_def Let_def e_def [symmetric] q_def [symmetric]
    by (simp only: if_False split: if_split) blast
qed

lemma to_number_overflow [code]:
  "to_number n =
     (if 2 ^ 1024 \<le> \<bar>n\<bar> then (if n < 0 then NegInf else PosInf)
      else (let m = nearest_double \<bar>n\<bar>
            in if 2 ^ 1024 \<le> m then (if n < 0 then NegInf else PosInf) else Num (sgn n * m)))"
  using nearest_double_overflow [of "\<bar>n\<bar>"]
  unfolding to_number_def Let_def by (simp only: if_True split: if_split) blast

lemma parseInt10_cases: "parseInt10 s = NaN \<or> parseInt10 s = PosInf \<or> parseInt10 s = NegInf \<or> (\<exists>n. parseInt10 s = Num n)"
  by (cases "parseInt10 s") auto

lemma rec_field_trimmed: "rec_field h r k = Inr f \<Longrightarrow> dropWhile is_ws f = f"
  by (auto simp: rec_field_def dropWhile_trim split: option.splits jsval.splits)

lemma trimmed_field_empty: "\<forall>p \<in> set r. snd p = [] \<Longrightarrow> trimmed_field r k = []"
proof -
  assume a: "\<forall>p \<in> set r. snd p = []"
  show ?thesis
  proof (cases "map_of r k")
    case None
    then show ?thesis by (simp add: trimmed_field_def)
  next
    case (Some v)
    then have "(k, v) \<in> set r" by (rule map_of_SomeD)
    with a have "v = []" by force
    with Some show ?thesis by (simp add: trimmed_field_def trim_def)
  qed
qed

lemma mapRecordToDb_empty:
  assumes "objs h 0 = proto_builtins" and "\<forall>p \<in> set r. snd p = []"
  shows "mapRecordToDb h r = (Inl (MandatoryMissing [] [] []), h)"
  by (simp add: mapRecordToDb_clean [OF assms(1)] trimmed_field_empty [OF assms(2)])


section \<open>The database client\<close>

text \<open>
  Modelled from the spec: the table \<open>public.users\<close> is not created by this repository; the
  storage contract gives it the columns \<open>name\<close> (text), \<open>age\<close> (integer), \<open>address\<close> and
  \<open>additional_info\<close> (nullable JSON). A row of parameters is what \<open>insertBatch\<close> pushes
  onto \<open>vals\<close>; the database stores it with the age as an integer and cannot store an
  age that is not an integral finite Number.
\<close>

type_synonym params = "jsstring \<times> jsnum \<times> jsstring option \<times> jsstring option"

record user_row =
  u_name :: jsstring
  u_age :: int
  u_address :: "jsstring option"
  u_additional_info :: "jsstring option"

fun store_row :: "params \<Rightarrow> user_row option" where
  "store_row (n, Num a, ad, ai) =
     Some \<lparr>u_name = n, u_age = a, u_address = ad, u_additional_info = ai\<rparr>"
| "store_row (n, _, ad, ai) = None"

datatype stmt = Begin | Insert "params list" | Commit | Rollback | CountRows | AgeBuckets

datatype txstate = NoTx | InTx "user_row list" | Aborted

text \<open>
  The state behind \<open>client\<close>: the committed rows of \<open>public.users\<close>, the open transaction
  with the rows it has written, and every statement received so far.
\<close>

record database =
  users :: "user_row list"
  tx :: txstate
  statements :: "stmt list"

text \<open>
  The surroundings of the program: \<open>BATCH_SIZE\<close> as parsed from the environment,
  \<open>JSON.stringify\<close> on an object of the heap, and the database's verdict on an insert
  statement, by the number of statements it has received before (constraint violations,
  lost connections).
\<close>

record env =
  BATCH_SIZE :: jsnum
  JSON_stringify :: "heap \<Rightarrow> nat \<Rightarrow> jsstring"
  insert_fails :: "nat \<Rightarrow> bool"

definition rejected :: "env \<Rightarrow> nat \<Rightarrow> params list \<Rightarrow> bool" where
  "rejected E n rows \<longleftrightarrow> insert_fails E n \<or> \<not> list_all (\<lambda>r. store_row r \<noteq> None) rows"

definition query_begin :: "database \<Rightarrow> database" where
  "query_begin db =
     db\<lparr>tx := (case tx db of NoTx \<Rightarrow> InTx [] | t \<Rightarrow> t), statements := statements db @ [Begin]\<rparr>"

text \<open>
  A rejected insert stores nothing and aborts the open transaction; an accepted one adds
  its rows to the open transaction, or to the table when none is open.
\<close>

definition query_insert :: "env \<Rightarrow> database \<Rightarrow> params list \<Rightarrow> error option \<times> database" where
  "query_insert E db rows =
     (let n = length (statements db);
          db' = db\<lparr>statements := statements db @ [Insert rows]\<rparr>
      in case tx db of
           Aborted \<Rightarrow> (Some (InsertFailed n), db')
         | InTx pending \<Rightarrow>
             if rejected E n rows then (Some (InsertFailed n), db'\<lparr>tx := Aborted\<rparr>)
             else (None, db'\<lparr>tx := InTx (pending @ List.map_filter store_row rows)\<rparr>)
         | NoTx \<Rightarrow>
             if rejected E n rows then (Some (InsertFailed n), db')
             else (None, db'\<lparr>users := users db @ List.map_filter store_row rows\<rparr>))"

definition query_commit :: "database \<Rightarrow> database" where
  "query_commit db =
     db\<lparr>users := (case tx db of InTx pending \<Rightarrow> users db @ pending | _ \<Rightarrow> users db),
        tx := NoTx, statements := statements db @ [Commit]\<rparr>"

definition query_rollback :: "database \<Rightarrow> database" where
  "query_rollback db = db\<lparr>tx := NoTx, statements := statements db @ [Rollback]\<rparr>"

text \<open>The rows a query on this client sees.\<close>

definition visible :: "database \<Rightarrow> user_row list" where
  "visible db = users db @ (case tx db of InTx pending \<Rightarrow> pending | _ \<Rightarrow> [])"

section \<open>The batch loader\<close>

definition to_params :: "env \<Rightarrow> heap \<Rightarrow> document \<Rightarrow> params" where
  "to_params E h r =
     (name r, age r,
      (case address r of Some a \<Rightarrow> Some (JSON_stringify E h a) | None \<Rightarrow> None),
      (case additional_info r of Some a \<Rightarrow> Some (JSON_stringify E h a) | None \<Rightarrow> None))"

definition insertBatch :: "env \<Rightarrow> heap \<Rightarrow> database \<Rightarrow> document list \<Rightarrow> error option \<times> database" where
  "insertBatch E h db rows =
     (if rows = [] then (None, db) else query_insert E db (map (to_params E h) rows))"

text \<open>\<open>batch.length >= BATCH_SIZE\<close>; a comparison with \<open>NaN\<close> is false.\<close>

fun length_ge :: "nat \<Rightarrow> jsnum \<Rightarrow> bool" where
  "length_ge n (Num b) = (b \<le> int n)"
| "length_ge n NegInf = True"
| "length_ge n PosInf = False"
| "length_ge n NaN = False"

text \<open>
  The variables of the \<open>for\<close> loop of \<open>importCsvFile\<close>; \<open>skipped\<close> collects the row
  numbers of the \<open>Skipping row\<close> messages.
\<close>

record loader =
  heap_of :: heap
  db_of :: database
  batch :: "document list"
  inserted :: nat
  skipped :: "nat list"

fun import_rows :: "env \<Rightarrow> nat \<Rightarrow> flatrecord list \<Rightarrow> loader \<Rightarrow> error option \<times> loader" where
  "import_rows E i [] st = (None, st)"
| "import_rows E i (r # records) st =
     (case mapRecordToDb (heap_of st) r of
        (Inl err, h') \<Rightarrow>
          import_rows E (Suc i) records (st\<lparr>heap_of := h', skipped := skipped st @ [i + 2]\<rparr>)
      | (Inr mapped, h') \<Rightarrow>
          (let st1 = st\<lparr>heap_of := h', batch := batch st @ [mapped]\<rparr>
           in if length_ge (length (batch st1)) (BATCH_SIZE E) then
                (case insertBatch E (heap_of st1) (db_of st1) (batch st1) of
                   (Some e, db') \<Rightarrow> (Some e, st1\<lparr>db_of := db'\<rparr>)
                 | (None, db') \<Rightarrow>
                     import_rows E (Suc i) records
                       (st1\<lparr>db_of := db', inserted := inserted st1 + length (batch st1),
                            batch := []\<rparr>))
              else import_rows E (Suc i) records st1))"

section \<open>The age report\<close>

text \<open>
  Doubles as rationals. \<open>fl x\<close> is the double nearest to \<open>x\<close>, ties to even, for
  \<open>\<bar>x\<bar> < 2^1024\<close>: the value is rounded to 53 significant bits, or to a multiple of
  \<open>2^-1074\<close> in the subnormal range. \<open>ilog2 x\<close> is \<open>\<lfloor>log\<^sub>2 x\<rfloor>\<close> for a positive \<open>x\<close>.
\<close>

definition ilog2 :: "rat \<Rightarrow> int" where
  "ilog2 x =
     (case quotient_of x of
        (a, b) \<Rightarrow> (let k = bitlen a - bitlen b in if 2 powi k \<le> x then k else k - 1))"

definition round_ties_even :: "rat \<Rightarrow> int" where
  "round_ties_even x =
     (let f = \<lfloor>x\<rfloor>; d = x - of_int f
      in if d < 1 / 2 then f else if 1 / 2 < d then f + 1 else if even f then f else f + 1)"

definition fl :: "rat \<Rightarrow> rat" where
  "fl x =
     (if x = 0 then 0
      else (let e = max (ilog2 \<bar>x\<bar> - 52) (- 1074)
            in of_int (round_ties_even (x / 2 powi e)) * 2 powi e))"

text \<open>\<open>Math.round\<close>: the nearest integer, a tie going up.\<close>

definition Math_round :: "rat \<Rightarrow> int" where
  "Math_round y = \<lfloor>y + 1 / 2\<rfloor>"

text \<open>\<open>pct = n => (total === 0 ? 0 : Math.round((n / total) * 100))\<close>, on two counts.\<close>

definition pct :: "nat \<Rightarrow> nat \<Rightarrow> int" where
  "pct tot n =
     (if tot = 0 then 0 else Math_round (fl (fl (of_nat n / of_nat tot) * 100)))"

text \<open>The four \<open>CASE WHEN\<close> conditions of the second query.\<close>

definition lt20 :: "int \<Rightarrow> bool" where "lt20 a \<longleftrightarrow> a < 20"
definition btw20_40 :: "int \<Rightarrow> bool" where "btw20_40 a \<longleftrightarrow> a \<ge> 20 \<and> a \<le> 40"
definition btw40_60 :: "int \<Rightarrow> bool" where "btw40_60 a \<longleftrightarrow> a > 40 \<and> a \<le> 60"
definition gt60 :: "int \<Rightarrow> bool" where "gt60 a \<longleftrightarrow> a > 60"

definition count_where :: "(int \<Rightarrow> bool) \<Rightarrow> user_row list \<Rightarrow> nat" where
  "count_where c rows = length (filter (\<lambda>r. c (u_age r)) rows)"

datatype report = NoRecords | Distribution int int int int

text \<open>
  \<open>printAgeDistribution\<close>: \<open>COUNT(*)::int\<close> cannot hold a count of \<open>2^31\<close> or more; with
  no rows the function returns after the first query.
\<close>

definition printAgeDistribution :: "database \<Rightarrow> (error + report) \<times> database" where
  "printAgeDistribution db =
     (let db1 = db\<lparr>statements := statements db @ [CountRows]\<rparr>;
          tot = length (visible db)
      in if 2 ^ 31 \<le> int tot then (Inl CountOutOfRange, db1)
         else if tot = 0 then (Inr NoRecords, db1)
         else (let db2 = db1\<lparr>statements := statements db1 @ [AgeBuckets]\<rparr>;
                   rows = visible db
               in (Inr (Distribution (pct tot (count_where lt20 rows))
                                      (pct tot (count_where btw20_40 rows))
                                      (pct tot (count_where btw40_60 rows))
                                      (pct tot (count_where gt60 rows))),
                   db2)))"

section \<open>The import\<close>

text \<open>
  \<open>importCsvFile\<close> from the text of the file on: parse (an error here is thrown before a
  client is taken), \<open>BEGIN\<close>, the loop, the final flush, \<open>COMMIT\<close> and the report; any
  error after \<open>BEGIN\<close> is answered by \<open>ROLLBACK\<close> and thrown again. The result carries
  the heap, the database and the row numbers skipped.
\<close>

definition importCsvFile ::
  "env \<Rightarrow> heap \<Rightarrow> database \<Rightarrow> jsstring \<Rightarrow> (error + report) \<times> heap \<times> database \<times> nat list"
where
  "importCsvFile E h db text =
     (case parseCSVText text of
        Inl e \<Rightarrow> (Inl e, h, db, [])
      | Inr records \<Rightarrow>
          (case import_rows E 0 records
                  \<lparr>heap_of = h, db_of = query_begin db, batch = [], inserted = 0, skipped = []\<rparr> of
             (Some e, st) \<Rightarrow> (Inl e, heap_of st, query_rollback (db_of st), skipped st)
           | (None, st) \<Rightarrow>
               (case (if batch st \<noteq> [] then insertBatch E (heap_of st) (db_of st) (batch st)
                      else (None, db_of st)) of
                  (Some e, db1) \<Rightarrow> (Inl e, heap_of st, query_rollback db1, skipped st)
                | (None, db1) \<Rightarrow>
                    (case printAgeDistribution (query_commit db1) of
                       (Inl e, db2) \<Rightarrow> (Inl e, heap_of st, query_rollback db2, skipped st)
                     | (Inr rep, db2) \<Rightarrow> (Inr rep, heap_of st, db2, skipped st)))))"

section \<open>Properties of the loader\<close>

text \<open>
  Vocabulary for the loader's claims: the row batches of the insert statements in a log,
  the verdicts on consecutive insert statements from position \<open>n\<close> on, and the documents
  the loop maps successfully (the heap is threaded through the mapper calls).
\<close>

fun inserts_of :: "stmt list \<Rightarrow> params list list" where
  "inserts_of [] = []"
| "inserts_of (Insert rows # ss) = rows # inserts_of ss"
| "inserts_of (_ # ss) = inserts_of ss"

fun accepted_from :: "env \<Rightarrow> nat \<Rightarrow> params list list \<Rightarrow> bool" where
  "accepted_from E n [] = True"
| "accepted_from E n (rows # others) = (\<not> rejected E n rows \<and> accepted_from E (Suc n) others)"

fun mapped_docs :: "heap \<Rightarrow> flatrecord list \<Rightarrow> document list" where
  "mapped_docs h [] = []"
| "mapped_docs h (r # records) =
     (case mapRecordToDb h r of
        (Inl err, h') \<Rightarrow> mapped_docs h' records
      | (Inr mapped, h') \<Rightarrow> mapped # mapped_docs h' records)"

lemma inserts_of_append: "inserts_of (xs @ ys) = inserts_of xs @ inserts_of ys"
  by (induction xs rule: inserts_of.induct) auto


lemma accepted_from_append:
  "accepted_from E n (xs @ ys) \<longleftrightarrow> accepted_from E n xs \<and> accepted_from E (n + length xs) ys"
  by (induction xs arbitrary: n) auto

lemma insertBatch_InTx:
  assumes "tx db = InTx p0" and "docs \<noteq> []"
  shows "insertBatch E h db docs =
     (if rejected E (length (statements db)) (map (to_params E h) docs)
      then (Some (InsertFailed (length (statements db))),
            db\<lparr>statements := statements db @ [Insert (map (to_params E h) docs)], tx := Aborted\<rparr>)
      else (None, db\<lparr>statements := statements db @ [Insert (map (to_params E h) docs)],
                      tx := InTx (p0 @ List.map_filter store_row (map (to_params E h) docs))\<rparr>))"
  using assms by (simp add: insertBatch_def query_insert_def Let_def)

text \<open>What the loop does to the database: it only sends insert statements.\<close>

definition loop_outcome :: "env \<Rightarrow> database \<Rightarrow> user_row list \<Rightarrow> error option \<Rightarrow> database \<Rightarrow> params list list \<Rightarrow> bool" where
  "loop_outcome E db p0 res db' ins \<longleftrightarrow>
     statements db' = statements db @ map Insert ins \<and> users db' = users db \<and>
     (case res of
        None \<Rightarrow> accepted_from E (length (statements db)) ins \<and>
                tx db' = InTx (p0 @ List.map_filter store_row (concat ins))
      | Some e \<Rightarrow> ins \<noteq> [] \<and> accepted_from E (length (statements db)) (butlast ins) \<and>
                  rejected E (length (statements db) + length ins - 1) (last ins) \<and>
                  e = InsertFailed (length (statements db) + length ins - 1) \<and> tx db' = Aborted)"

lemma map_filter_app: "List.map_filter f (xs @ ys) = List.map_filter f xs @ List.map_filter f ys"
  by (simp add: List.map_filter_def)

lemma loop_outcome_step:
  assumes "\<not> rejected E (length (statements db)) rows"
    and "loop_outcome E (db\<lparr>statements := statements db @ [Insert rows],
                             tx := InTx (p0 @ List.map_filter store_row rows)\<rparr>)
           (p0 @ List.map_filter store_row rows) res db' ins"
  shows "loop_outcome E db p0 res db' (rows # ins)"
  using assms
  by (cases res) (auto simp: loop_outcome_def map_filter_app butlast_append split: if_splits)


lemma printAgeDistribution_db:
  "\<exists>qs. statements (snd (printAgeDistribution db)) = statements db @ qs \<and> inserts_of qs = [] \<and>
        users (snd (printAgeDistribution db)) = users db \<and>
        tx (snd (printAgeDistribution db)) = tx db \<and>
        fst (printAgeDistribution db) \<noteq> Inl (InsertFailed n)"
  by (simp add: printAgeDistribution_def Let_def)

lemma not_accepted_last:
  assumes "ins \<noteq> []" and "rejected E (n + length ins - 1) (last ins)"
  shows "\<not> accepted_from E n ins"
proof -
  from assms(1) have "ins = butlast ins @ [last ins]" by simp
  then have "accepted_from E n ins \<longleftrightarrow>
      accepted_from E n (butlast ins) \<and> accepted_from E (n + length (butlast ins)) [last ins]"
    using accepted_from_append [of E n "butlast ins" "[last ins]"] by simp
  moreover have "n + length (butlast ins) = n + length ins - 1"
    using assms(1) by (cases ins) auto
  ultimately show ?thesis using assms(2) by simp
qed


text \<open>The name and age of a row of parameters, and of a document.\<close>

definition pkey :: "params \<Rightarrow> jsstring \<times> jsnum" where
  "pkey p = (fst p, fst (snd p))"

definition dkey :: "document \<Rightarrow> jsstring \<times> jsnum" where
  "dkey d = (name d, age d)"

lemma pkey_to_params: "pkey (to_params E h d) = dkey d"
  by (simp add: pkey_def dkey_def to_params_def)





lemma map_filter_all_Some:
  "\<forall>p \<in> set ps. f p \<noteq> None \<Longrightarrow> length (List.map_filter f ps) = length ps"
  by (induction ps) (auto simp: List.map_filter_def)


text \<open>
  What the loop has sent, against the documents it had to send: after a full pass the rows
  sent and the batch still held are the documents, in order; after a rejected insert the
  rows sent are a prefix of them.
\<close>

definition loop_rows ::
  "error option \<Rightarrow> params list list \<Rightarrow> document list \<Rightarrow> document list \<Rightarrow> bool" where
  "loop_rows res ins left docs \<longleftrightarrow>
     (case res of
        None \<Rightarrow> map pkey (concat ins) @ map dkey left = map dkey docs
      | Some e \<Rightarrow> (\<exists>rest. map pkey (concat ins) @ rest = map dkey docs))"

lemma loop_rows_step:
  assumes "loop_rows res ins left docs"
  shows "loop_rows res (map (to_params E h) b1 # ins) left (b1 @ docs)"
proof -
  have k: "map pkey (map (to_params E h) b1) = map dkey b1"
    by (simp add: pkey_to_params)
  show ?thesis
  proof (cases res)
    case None
    with assms have "map pkey (concat ins) @ map dkey left = map dkey docs"
      by (simp add: loop_rows_def)
    then have "map dkey b1 @ map pkey (concat ins) @ map dkey left = map dkey b1 @ map dkey docs"
      by simp
    then show ?thesis using None k by (simp add: loop_rows_def del: map_map)
  next
    case (Some e)
    with assms obtain rest where "map pkey (concat ins) @ rest = map dkey docs"
      by (auto simp: loop_rows_def)
    then have "map dkey b1 @ map pkey (concat ins) @ rest = map dkey b1 @ map dkey docs"
      by simp
    then show ?thesis using Some k by (auto simp: loop_rows_def simp del: map_map)
  qed
qed

lemma import_rows_sent:
  "tx (db_of st) = InTx p0 \<Longrightarrow>
   \<exists>ins. loop_outcome E (db_of st) p0 (fst (import_rows E i records st))
            (db_of (snd (import_rows E i records st))) ins \<and>
         loop_rows (fst (import_rows E i records st)) ins
            (batch (snd (import_rows E i records st)))
            (batch st @ mapped_docs (heap_of st) records)"
proof (induction records arbitrary: st i p0)
  case Nil
  show ?case by (rule exI [of _ "[]"]) (simp add: loop_outcome_def loop_rows_def Nil)
next
  case (Cons r records)
  obtain res h' where m: "mapRecordToDb (heap_of st) r = (res, h')"
    by (cases "mapRecordToDb (heap_of st) r")
  show ?case
  proof (cases res)
    case (Inl err)
    define sta where "sta = st\<lparr>heap_of := h', skipped := skipped st @ [i + 2]\<rparr>"
    have md: "mapped_docs (heap_of st) (r # records) = mapped_docs (heap_of sta) records"
      using m Inl by (simp add: sta_def)
    have step: "import_rows E i (r # records) st = import_rows E (Suc i) records sta"
      using m Inl by (simp add: sta_def)
    have "tx (db_of sta) = InTx p0" using Cons.prems by (simp add: sta_def)
    from Cons.IH [OF this, of "Suc i"] show ?thesis
      unfolding step md by (simp add: sta_def)
  next
    case (Inr mapped)
    define st1 where "st1 = st\<lparr>heap_of := h', batch := batch st @ [mapped]\<rparr>"
    have md: "mapped_docs (heap_of st) (r # records) = mapped # mapped_docs (heap_of st1) records"
      using m Inr by (simp add: st1_def)
    have tx1: "tx (db_of st1) = InTx p0" and db1: "db_of st1 = db_of st"
      and b1: "batch st1 = batch st @ [mapped]"
      using Cons.prems by (simp_all add: st1_def)
    have ne: "batch st1 \<noteq> []" by (simp add: st1_def)
    show ?thesis
    proof (cases "length_ge (length (batch st1)) (BATCH_SIZE E)")
      case False
      have step: "import_rows E i (r # records) st = import_rows E (Suc i) records st1"
        using m Inr False by (simp add: st1_def Let_def)
      from Cons.IH [OF tx1, of "Suc i"] show ?thesis
        unfolding step md using db1 b1 by simp
    next
      case True
      let ?rows = "map (to_params E (heap_of st1)) (batch st1)"
      let ?n = "length (statements (db_of st))"
      show ?thesis
      proof (cases "rejected E ?n ?rows")
        case rej: True
        have run: "import_rows E i (r # records) st =
            (Some (InsertFailed ?n),
             st1\<lparr>db_of := (db_of st)\<lparr>statements := statements (db_of st) @ [Insert ?rows],
                                       tx := Aborted\<rparr>\<rparr>)"
          using m Inr True rej insertBatch_InTx [OF tx1 ne, of E "heap_of st1"] db1
          by (simp add: st1_def Let_def)
        have "map pkey ?rows = map dkey (batch st1)" by (simp add: pkey_to_params)
        then have "map pkey (concat [?rows]) @ map dkey (mapped_docs (heap_of st1) records) =
            map dkey (batch st @ mapped_docs (heap_of st) (r # records))"
          unfolding md using b1 by (simp del: map_map)
        then have "loop_rows (Some (InsertFailed ?n)) [?rows] (batch st1)
            (batch st @ mapped_docs (heap_of st) (r # records))"
          unfolding loop_rows_def by (simp only: option.case) blast
        then show ?thesis
          unfolding run using rej
          by (intro exI [of _ "[?rows]"]) (simp add: loop_outcome_def)
      next
        case acc: False
        define db2 where "db2 = (db_of st)\<lparr>statements := statements (db_of st) @ [Insert ?rows],
                      tx := InTx (p0 @ List.map_filter store_row ?rows)\<rparr>"
        define st2 where "st2 = st1\<lparr>db_of := db2, inserted := inserted st1 + length (batch st1),
                            batch := []\<rparr>"
        have step: "import_rows E i (r # records) st = import_rows E (Suc i) records st2"
          using m Inr True acc insertBatch_InTx [OF tx1 ne, of E "heap_of st1"] db1
          by (simp add: st1_def st2_def db2_def Let_def)
        have "tx (db_of st2) = InTx (p0 @ List.map_filter store_row ?rows)"
          by (simp add: st2_def db2_def)
        from Cons.IH [OF this, of "Suc i"] obtain ins where
          lo: "loop_outcome E db2 (p0 @ List.map_filter store_row ?rows)
             (fst (import_rows E (Suc i) records st2))
             (db_of (snd (import_rows E (Suc i) records st2))) ins" and
          lr: "loop_rows (fst (import_rows E (Suc i) records st2)) ins
             (batch (snd (import_rows E (Suc i) records st2)))
             (mapped_docs (heap_of st1) records)"
          by (auto simp: st2_def)
        from loop_rows_step [OF lr, of E "heap_of st1" "batch st1"]
        have "loop_rows (fst (import_rows E (Suc i) records st2)) (?rows # ins)
             (batch (snd (import_rows E (Suc i) records st2)))
             (batch st @ mapped_docs (heap_of st) (r # records))"
          unfolding md b1 by simp
        with loop_outcome_step [OF acc lo [unfolded db2_def]] show ?thesis
          unfolding step by blast
      qed
    qed
  qed
qed

lemma accepted_stored:
  "accepted_from E n ins \<Longrightarrow> \<forall>p \<in> set (concat ins). store_row p \<noteq> None"
  by (induction ins arbitrary: n) (auto simp: rejected_def list_all_iff)
section \<open>Properties of the report\<close>

text \<open>The error of rounding to a double, and of the percentage computed in doubles.\<close>

lemma two_powi_pos: "0 < (2::rat) powi k"
  by simp

lemma two_powi_nat: "0 \<le> k \<Longrightarrow> (2::rat) powi k = of_int (2 ^ nat k)"
  by (simp add: power_int_nonneg_exp)

lemma two_powi_diff: "(2::rat) powi (a - b) = 2 powi a / 2 powi b"
  by (simp add: power_int_diff)

lemma two_powi_Suc: "(2::rat) powi (k + 1) = 2 * 2 powi k"
  by (simp add: power_int_add)

lemma ilog2_bounds:
  assumes "0 < x"
  shows "2 powi (ilog2 x) \<le> x \<and> x < 2 powi (ilog2 x + 1)"
proof -
  obtain a b where q: "quotient_of x = (a, b)" by (cases "quotient_of x")
  then have b: "0 < b" by (rule quotient_of_denom_pos)
  from q have x: "x = of_int a / of_int b" by (rule quotient_of_div)
  with assms b have a: "0 < a" by (simp add: zero_less_divide_iff)
  define la lb where "la = bitlen a" and "lb = bitlen b"
  have la: "1 \<le> la" "(2::int) ^ nat (la - 1) \<le> a" "a < 2 ^ nat la"
    using bitlen_bounds [OF a] a bitlen_nonneg [of a] bitlen_eq_zero_iff [of a]
    by (simp_all add: la_def)
  have lb: "1 \<le> lb" "(2::int) ^ nat (lb - 1) \<le> b" "b < 2 ^ nat lb"
    using bitlen_bounds [OF b] b bitlen_nonneg [of b] bitlen_eq_zero_iff [of b]
    by (simp_all add: lb_def)
  have cmp: "(of_int m :: rat) \<le> of_int n \<longleftrightarrow> m \<le> n" "(of_int m :: rat) < of_int n \<longleftrightarrow> m < n"
    for m n :: int
    by simp_all
  have ra: "2 powi (la - 1) \<le> (of_int a :: rat)" "(of_int a :: rat) < 2 powi la"
  proof -
    have "(of_int (2 ^ nat (la - 1)) :: rat) \<le> of_int a" using la(2) by (simp only: cmp)
    moreover have "(2::rat) powi (la - 1) = of_int (2 ^ nat (la - 1))"
      using la(1) by (intro two_powi_nat) simp
    ultimately show "2 powi (la - 1) \<le> (of_int a :: rat)" by (simp only:)
    have "(of_int a :: rat) < of_int (2 ^ nat la)" using la(3) by (simp only: cmp)
    moreover have "(2::rat) powi la = of_int (2 ^ nat la)"
      using la(1) by (intro two_powi_nat) simp
    ultimately show "(of_int a :: rat) < 2 powi la" by (simp only:)
  qed
  have rb: "2 powi (lb - 1) \<le> (of_int b :: rat)" "(of_int b :: rat) < 2 powi lb"
  proof -
    have "(of_int (2 ^ nat (lb - 1)) :: rat) \<le> of_int b" using lb(2) by (simp only: cmp)
    moreover have "(2::rat) powi (lb - 1) = of_int (2 ^ nat (lb - 1))"
      using lb(1) by (intro two_powi_nat) simp
    ultimately show "2 powi (lb - 1) \<le> (of_int b :: rat)" by (simp only:)
    have "(of_int b :: rat) < of_int (2 ^ nat lb)" using lb(3) by (simp only: cmp)
    moreover have "(2::rat) powi lb = of_int (2 ^ nat lb)"
      using lb(1) by (intro two_powi_nat) simp
    ultimately show "(of_int b :: rat) < 2 powi lb" by (simp only:)
  qed
  have bpos: "(0::rat) < of_int b" using b by simp
  have up: "x < 2 powi (la - lb + 1)"
  proof -
    have "x * of_int b = of_int a" using x bpos by simp
    also have "\<dots> < 2 powi la" by (rule ra(2))
    also have "\<dots> = 2 powi (la - lb + 1) * 2 powi (lb - 1)"
      by (simp add: power_int_add [symmetric])
    also have "\<dots> \<le> 2 powi (la - lb + 1) * of_int b"
      by (rule mult_left_mono [OF rb(1)]) simp
    finally show ?thesis using bpos by simp
  qed
  have low: "2 powi (la - lb - 1) < x"
  proof -
    have "(2::rat) powi (la - lb - 1) * of_int b < 2 powi (la - lb - 1) * 2 powi lb"
      by (rule mult_strict_left_mono [OF rb(2)]) simp
    also have "\<dots> = 2 powi (la - 1)" by (simp add: power_int_add [symmetric])
    also have "\<dots> \<le> of_int a" by (rule ra(1))
    also have "\<dots> = x * of_int b" using x bpos by simp
    finally show ?thesis using bpos by simp
  qed
  have il: "ilog2 x = (if 2 powi (la - lb) \<le> x then la - lb else la - lb - 1)"
    by (simp add: ilog2_def q la_def lb_def Let_def)
  show ?thesis
  proof (cases "2 powi (la - lb) \<le> x")
    case True
    then show ?thesis using up il by simp
  next
    case False
    then show ?thesis using low il by simp
  qed
qed

lemma round_ties_even_error: "\<bar>of_int (round_ties_even s) - s\<bar> \<le> 1 / 2"
proof -
  have "of_int \<lfloor>s\<rfloor> \<le> s" "s < of_int \<lfloor>s\<rfloor> + 1" by linarith+
  then show ?thesis by (auto simp: round_ties_even_def Let_def)
qed

lemma fl_error:
  assumes "0 < x" and "2 powi (- 1022) \<le> x"
  shows "\<bar>fl x - x\<bar> \<le> x * 2 powi (- 53)"
proof -
  define L where "L = ilog2 x"
  define P :: rat where "P = 2 powi (L - 53)"
  have Lb: "2 powi L \<le> x" "x < 2 powi (L + 1)"
    using ilog2_bounds [OF assms(1)] by (simp_all add: L_def)
  have lt: "(2::rat) powi (- 1022) < 2 powi (L + 1)" using assms(2) Lb(2) by (rule le_less_trans)
  have "- 1022 < L + 1"
  proof (rule ccontr)
    assume "\<not> - 1022 < L + 1"
    then have "L + 1 \<le> - 1022" by simp
    then have "(2::rat) powi (L + 1) \<le> 2 powi (- 1022)" by (rule power_int_increasing) simp
    with lt show False by (meson leD)
  qed
  then have e: "max (ilog2 x - 52) (- 1074) = L - 52" by (simp add: L_def)
  define s where "s = x / 2 powi (L - 52)"
  have Ppos: "0 < P" by (simp add: P_def)
  have p1: "(2::rat) powi (L - 52) = 2 * P"
    using two_powi_Suc [of "L - 53"] by (simp add: P_def)
  have p2: "(2::rat) powi L = P * 2 ^ 53"
  proof -
    have "(2::rat) powi L = 2 powi ((L - 53) + 53)" by simp
    also have "\<dots> = 2 powi (L - 53) * 2 powi 53" by (rule power_int_add) simp
    finally show ?thesis by (simp add: P_def)
  qed
  have p3: "(2::rat) powi (- 53) = 1 / 2 ^ 53" by (simp add: power_int_minus_divide)
  have ax: "\<bar>x\<bar> = x" using assms(1) by simp
  have fl: "fl x = of_int (round_ties_even s) * (2 * P)"
    using assms(1) unfolding fl_def Let_def ax e p1 s_def by simp
  have xs: "x = s * (2 * P)" using Ppos by (simp add: s_def p1)
  have "of_int (round_ties_even s) * (2 * P) - s * (2 * P) =
      (of_int (round_ties_even s) - s) * (2 * P)"
    by (simp only: left_diff_distrib)
  then have "fl x - x = (of_int (round_ties_even s) - s) * (2 * P)"
    using fl xs by simp
  then have "\<bar>fl x - x\<bar> = \<bar>of_int (round_ties_even s) - s\<bar> * (2 * P)"
    using Ppos by (simp add: abs_mult)
  also have "\<dots> \<le> (1 / 2) * (2 * P)"
    using Ppos by (intro mult_right_mono [OF round_ties_even_error]) simp
  also have "\<dots> = P" by simp
  also have "\<dots> = 2 powi L * 2 powi (- 53)" unfolding p2 p3 by simp
  also have "\<dots> \<le> x * 2 powi (- 53)"
    by (rule mult_right_mono [OF Lb(1)]) simp
  finally show ?thesis .
qed

lemma fl_zero: "fl 0 = 0"
  by (simp add: fl_def)

lemma int_lt_one:
  fixes k :: int
  assumes "(of_int k :: rat) < 1"
  shows "k \<le> 0"
proof -
  have "(of_int k :: rat) < of_int 1" using assms by simp
  then have "k < 1" by (simp only: of_int_less_iff)
  then show ?thesis by simp
qed

lemma tiny_le: "(2::rat) powi (- 1022) \<le> 1 / 2 ^ 31"
proof -
  have a: "(2::rat) powi (- 1022) \<le> 2 powi (- 31)" by (rule power_int_increasing) simp_all
  have b: "(2::rat) powi (- 31) = 1 / 2 ^ 31" by (simp add: power_int_minus_divide)
  from a show ?thesis unfolding b .
qed

lemma fl_error_normal:
  assumes "1 / 2 ^ 31 \<le> x"
  shows "\<bar>fl x - x\<bar> \<le> x / 2 ^ 53"
proof -
  have pos: "0 < x" using assms by (rule less_le_trans [rotated]) simp
  have low: "2 powi (- 1022) \<le> x" using tiny_le assms by (rule order_trans)
  have b: "(2::rat) powi (- 53) = 1 / 2 ^ 53" by (simp add: power_int_minus_divide)
  from fl_error [OF pos low] show ?thesis unfolding b by simp
qed

lemma double_scaled_error:
  assumes "1 / 2 ^ 31 \<le> x" and "x \<le> 1"
  shows "\<bar>fl (fl x * 100) - 100 * x\<bar> \<le> 300 / 2 ^ 53"
proof -
  define u :: rat where "u = 1 / 2 ^ 53"
  define q where "q = fl x"
  define z where "z = q * 100"
  have xpos: "0 < x" using assms(1) by (rule less_le_trans [rotated]) simp
  have upos: "0 < u" and uh: "u \<le> 1 / 2" by (simp_all add: u_def)
  have qe: "\<bar>q - x\<bar> \<le> x * u"
    using fl_error_normal [OF assms(1)] by (simp add: q_def u_def)
  have xu: "x * u \<le> x * (1 / 2)" using xpos uh by (intro mult_left_mono) simp_all
  have qd: "q - x \<le> x * u" "x - q \<le> x * u"
    using qe by (simp_all add: abs_le_iff)
  have qlow: "x / 2 \<le> q" using qd(2) xu by linarith
  have qup: "q \<le> 2 * x" using qd(1) xu xpos by linarith
  have zlow: "1 / 2 ^ 31 \<le> z"
  proof -
    have "1 / 2 ^ 31 \<le> x" by (rule assms(1))
    also have "\<dots> \<le> (x / 2) * 100" using xpos by simp
    also have "\<dots> \<le> z" using qlow by (simp add: z_def)
    finally show ?thesis .
  qed
  have ye: "\<bar>fl z - z\<bar> \<le> z * u"
    using fl_error_normal [OF zlow] by (simp add: u_def)
  have zW: "\<bar>z - 100 * x\<bar> \<le> 100 * u"
  proof -
    have "z - 100 * x = 100 * (q - x)" by (simp add: z_def algebra_simps)
    then have "\<bar>z - 100 * x\<bar> = \<bar>100\<bar> * \<bar>q - x\<bar>" by (simp only: abs_mult)
    then have "\<bar>z - 100 * x\<bar> = 100 * \<bar>q - x\<bar>" by simp
    also have "\<dots> \<le> 100 * (x * u)" using qe by simp
    also have "\<dots> \<le> 100 * (1 * u)"
      using assms(2) upos by (intro mult_left_mono mult_right_mono) simp_all
    finally show ?thesis by simp
  qed
  have yz: "\<bar>fl z - z\<bar> \<le> 200 * u"
  proof -
    have "z \<le> 200" using qup assms(2) by (simp add: z_def)
    then have "z * u \<le> 200 * u" using upos by (intro mult_right_mono) simp_all
    with ye show ?thesis by simp
  qed
  have "\<bar>fl z - 100 * x\<bar> \<le> \<bar>fl z - z\<bar> + \<bar>z - 100 * x\<bar>" by simp
  with yz zW have "\<bar>fl z - 100 * x\<bar> \<le> 300 * u" by simp
  then show ?thesis by (simp add: z_def q_def u_def)
qed

lemma pct_nearest:
  assumes "0 < tot" and "tot < 2 ^ 31" and "n \<le> tot"
  shows "2 * \<bar>pct tot n * int tot - 100 * int n\<bar> \<le> int tot"
proof (cases "n = 0")
  case True
  have "\<lfloor>1 / 2 :: rat\<rfloor> = 0" by (simp add: floor_eq_iff)
  with True show ?thesis using assms(1) by (simp add: pct_def fl_zero Math_round_def)
next
  case False
  define T :: rat where "T = of_nat tot"
  define N :: rat where "N = of_nat n"
  define d :: rat where "d = 300 / 2 ^ 53"
  define x where "x = N / T"
  define y where "y = fl (fl x * 100)"
  define r where "r = Math_round y"
  have Tpos: "0 < T" and Npos: "1 \<le> N" and NT: "N \<le> T"
    using assms False by (simp_all add: T_def N_def)
  have Tlt: "T < 2 ^ 31"
  proof -
    have "(of_nat tot :: rat) < of_nat (2 ^ 31)" using assms(2) by (simp only: of_nat_less_iff)
    then show ?thesis by (simp add: T_def)
  qed
  have x1: "x \<le> 1" using Tpos NT by (simp add: x_def)
  have xlow: "1 / 2 ^ 31 \<le> x"
  proof -
    have "1 / 2 ^ 31 \<le> 1 / T" using Tpos Tlt by (simp add: frac_le)
    also have "\<dots> \<le> N / T" using Tpos Npos by (simp add: divide_right_mono)
    finally show ?thesis by (simp add: x_def)
  qed
  have yW: "\<bar>y - 100 * x\<bar> \<le> d"
    using double_scaled_error [OF xlow x1] by (simp add: y_def d_def)
  then have yd: "y - 100 * x \<le> d" "100 * x - y \<le> d" by (simp_all add: abs_le_iff)
  have dpos: "0 < d" by (simp add: d_def)
  have dT: "2 * d * T < 1"
  proof -
    have "2 * d * T < 2 * d * 2 ^ 31" using Tlt dpos by (intro mult_strict_left_mono) simp_all
    also have "\<dots> \<le> 1" by (simp add: d_def)
    finally show ?thesis .
  qed
  have rb: "of_int r \<le> y + 1 / 2" "y + 1 / 2 < of_int r + 1"
    unfolding r_def Math_round_def by linarith+
  have WT: "100 * x * T = 100 * N" using Tpos by (simp add: x_def)
  have up: "2 * of_int r * T - 200 * N - T \<le> 2 * d * T"
  proof -
    have "of_int r \<le> 100 * x + 1 / 2 + d" using rb(1) yd(1) by linarith
    then have "of_int r * T \<le> (100 * x + 1 / 2 + d) * T"
      using Tpos by (intro mult_right_mono) simp_all
    also have "\<dots> = 100 * N + T / 2 + d * T" using WT by (simp add: algebra_simps)
    finally show ?thesis by linarith
  qed
  have low: "200 * N - 2 * of_int r * T - T < 2 * d * T"
  proof -
    have "100 * x - d - 1 / 2 < of_int r" using rb(2) yd(2) by linarith
    then have "(100 * x - d - 1 / 2) * T < of_int r * T"
      using Tpos by (intro mult_strict_right_mono)
    moreover have "(100 * x - d - 1 / 2) * T = 100 * N - d * T - T / 2"
      using WT by (simp add: algebra_simps)
    ultimately show ?thesis by linarith
  qed
  have c1: "(of_int (2 * r * int tot - 200 * int n - int tot) :: rat) = 2 * of_int r * T - 200 * N - T"
    by (simp add: T_def N_def)
  have c2: "(of_int (200 * int n - 2 * r * int tot - int tot) :: rat) = 200 * N - 2 * of_int r * T - T"
    by (simp add: T_def N_def)
  have a1: "2 * r * int tot - 200 * int n - int tot \<le> 0"
  proof (rule int_lt_one)
    show "(of_int (2 * r * int tot - 200 * int n - int tot) :: rat) < 1"
      unfolding c1 using up dT by linarith
  qed
  have a2: "200 * int n - 2 * r * int tot - int tot \<le> 0"
  proof (rule int_lt_one)
    show "(of_int (200 * int n - 2 * r * int tot - int tot) :: rat) < 1"
      unfolding c2 using low dT by linarith
  qed
  have p: "pct tot n = r"
    using assms(1) by (simp add: pct_def r_def y_def x_def N_def T_def)
  define k where "k = r * int tot - 100 * int n"
  have "2 * k \<le> int tot" "- (2 * k) \<le> int tot"
    using a1 a2 by (simp_all add: k_def algebra_simps)
  then have "2 * \<bar>k\<bar> \<le> int tot" by linarith
  then show ?thesis unfolding p k_def .
qed

lemma count_where_map: "count_where c rows = length (filter c (map u_age rows))"
  by (simp add: count_where_def filter_map comp_def)

lemma bucket_partition:
  "(lt20 a \<or> btw20_40 a \<or> btw40_60 a \<or> gt60 a) \<and>
   \<not> (lt20 a \<and> btw20_40 a) \<and> \<not> (lt20 a \<and> btw40_60 a) \<and> \<not> (lt20 a \<and> gt60 a) \<and>
   \<not> (btw20_40 a \<and> btw40_60 a) \<and> \<not> (btw20_40 a \<and> gt60 a) \<and> \<not> (btw40_60 a \<and> gt60 a)"
  by (auto simp: lt20_def btw20_40_def btw40_60_def gt60_def)

lemma bucket_counts_total:
  "count_where lt20 rows + count_where btw20_40 rows + count_where btw40_60 rows +
   count_where gt60 rows = length rows"
proof (induction rows)
  case Nil
  show ?case by (simp add: count_where_def)
next
  case (Cons r rows)
  then show ?case
    using bucket_partition [of "u_age r"] by (auto simp: count_where_def)
qed

lemma count_where_le: "count_where c rows \<le> length rows"
  by (simp add: count_where_def)

lemma pct_quarter: "pct 4 (Suc 0) = 25"
  by code_simp


text \<open>
  Ties are decided by the doubles: \<open>29 / 200 * 100\<close> is computed as a value just below
  \<open>14.5\<close> and rounds down, \<open>1 / 8 * 100\<close> is exactly \<open>12.5\<close> and rounds up.
\<close>

lemma pct_ties: "pct 200 29 = 14 \<and> pct 8 1 = 13"
  by code_simp

section \<open>Claims about the parser\<close>

text \<open>
  C3 (as the code has it). \<open>parseCSVText\<close> throws \<open>No headers found in CSV\<close> exactly when
  the header line yields no field at all: the text, after an optional byte-order mark, is
  empty, a lone double quote, or a pair of double quotes. A first line without content
  that is ended by a line break yields one empty header name and is accepted.
\<close>

theorem parseCSVText_NoHeaders_iff:
  "parseCSVText text = Inl NoHeaders \<longleftrightarrow>
     strip_bom text = [] \<or> strip_bom text = [DQUOTE] \<or> strip_bom text = [DQUOTE, DQUOTE]"
  using readLineAsFields_empty_iff [of "strip_bom text"]
  by (cases "readLineAsFields (strip_bom text)") (auto simp: parseCSVText_def)

text \<open>
  C3 as stated fails: an input whose first line is empty does not raise. The text of one
  line feed parses to no records, and an empty first line followed by the line \<open>A\<close>
  parses to one record under the empty header name.
\<close>

theorem parseCSVText_empty_first_line:
  "parseCSVText [LF] = Inr [] \<and>
   parseCSVText (js [CHR 0x0A, CHR ''A'']) = Inr [[([], js ''A'')]]"
  by (simp add: parseCSVText_def strip_bom_def readLineAsFields_def scanLine.simps
      parse_rows.simps js_def build_rec_def pad_fields_def rec_assign_def PROTO_def obj_set_def
      trim_def is_ws_def is_array_index_def)

text \<open>
  C6. Whatever the content \<open>s\<close> of the middle field is (double quotes, commas, line
  breaks), the line \<open>a,"s",d\<close> with the double quotes of \<open>s\<close> doubled parses to one
  record of three fields whose middle value is \<open>s\<close>, trimmed at both ends like every
  stored value.
\<close>

theorem quoted_field_roundtrip:
  "parseCSVText (js ''x,y,z'' @ LF # js ''a,'' @ quote s @ js '',d'') =
     Inr [[(js ''x'', js ''a''), (js ''y'', trim s), (js ''z'', js ''d'')]]"
proof -
  let ?line = "js ''a,'' @ quote s @ js '',d''"
  have ne: "?line \<noteq> []" by (simp add: js_def)
  have sb: "strip_bom (js ''x,y,z'' @ LF # ?line) = js ''x,y,z'' @ LF # ?line"
    by (simp add: strip_bom_def js_def)
  have rows: "parse_rows [js ''x'', js ''y'', js ''z''] ?line =
      [build_rec [js ''x'', js ''y'', js ''z''] [js ''a'', s, js ''d'']]"
    using ne by (subst parse_rows.simps) (simp add: quoted_line3 parse_rows.simps [of _ "[]"])
  have rec: "build_rec [js ''x'', js ''y'', js ''z''] [js ''a'', s, js ''d''] =
      [(js ''x'', js ''a''), (js ''y'', trim s), (js ''z'', js ''d'')]"
    by (simp add: build_rec_def pad_fields_def rec_assign_def PROTO_def obj_set_def js_def
        is_array_index_def is_digit_def trim_def [of "[_]"] is_ws_def)
  have tr: "trim (js ''x'') = js ''x''" "trim (js ''y'') = js ''y''" "trim (js ''z'') = js ''z''"
    by (simp_all add: trim_def is_ws_def js_def)
  show ?thesis
    unfolding parseCSVText_def sb header3 [OF ne]
    by (simp add: tr rows rec)
qed

text \<open>
  C6 at the two inputs of the claim: the line \<open>a,"b""c",d\<close> gives the value \<open>b"c\<close>, and a
  quoted field with a line break and a comma inside stays one field of one record.
\<close>

theorem quoted_field_roundtrip_witness:
  \<open>parseCSVText (js (''x,y,z'' @ [CHR 0x0A] @ ''a,"b""c",d'')) =
     Inr [[(js ''x'', js ''a''), (js ''y'', js ''b"c''), (js ''z'', js ''d'')]] \<and>
   parseCSVText (js (''x,y,z'' @ [CHR 0x0A] @ ''a,"p'' @ [CHR 0x0A] @ ''q,r",d'')) =
     Inr [[(js ''x'', js ''a''), (js ''y'', js (''p'' @ [CHR 0x0A] @ ''q,r'')), (js ''z'', js ''d'')]]\<close>
proof -
  have a: \<open>js ''x,y,z'' @ LF # js ''a,'' @ quote (js ''b"c'') @ js '',d'' =
           js (''x,y,z'' @ [CHR 0x0A] @ ''a,"b""c",d'')\<close>
    by (simp add: js_def quote_def escape_def)
  have b: \<open>js ''x,y,z'' @ LF # js ''a,'' @ quote (js (''p'' @ [CHR 0x0A] @ ''q,r'')) @ js '',d'' =
           js (''x,y,z'' @ [CHR 0x0A] @ ''a,"p'' @ [CHR 0x0A] @ ''q,r",d'')\<close>
    by (simp add: js_def quote_def escape_def)
  have ta: \<open>trim (js ''b"c'') = js ''b"c''\<close> by (simp add: js_def trim_def is_ws_def)
  have tb: "trim (js (''p'' @ [CHR 0x0A] @ ''q,r'')) = js (''p'' @ [CHR 0x0A] @ ''q,r'')"
    by (simp add: js_def trim_def is_ws_def)
  from quoted_field_roundtrip [of \<open>js ''b"c''\<close>] quoted_field_roundtrip [of "js (''p'' @ [CHR 0x0A] @ ''q,r'')"]
  show ?thesis unfolding a b ta tb by simp
qed


text \<open>
  C9. The value stored for a quoted field of content \<open>s\<close> is \<open>trim s\<close>: it is empty when
  \<open>s\<close> is white space only, and otherwise neither begins nor ends with white space, so
  the quotes do not protect the surrounding white space.
\<close>

theorem quoted_field_trimmed:
  "parseCSVText (js ''k,v'' @ LF # quote s @ js '',1'') =
     Inr [[(js ''k'', trim s), (js ''v'', js ''1'')]] \<and>
   (list_all is_ws s \<longrightarrow> trim s = []) \<and>
   (trim s \<noteq> [] \<longrightarrow> \<not> is_ws (hd (trim s)) \<and> \<not> is_ws (last (trim s)))"
proof -
  let ?line = "quote s @ js '',1''"
  have ne: "?line \<noteq> []" by (simp add: js_def)
  have sb: "strip_bom (js ''k,v'' @ LF # ?line) = js ''k,v'' @ LF # ?line"
    by (simp add: strip_bom_def js_def)
  have rows: "parse_rows [js ''k'', js ''v''] ?line = [build_rec [js ''k'', js ''v''] [s, js ''1'']]"
    using ne by (subst parse_rows.simps) (simp add: quoted_line2 parse_rows.simps [of _ "[]"])
  have rec: "build_rec [js ''k'', js ''v''] [s, js ''1''] = [(js ''k'', trim s), (js ''v'', js ''1'')]"
    by (simp add: build_rec_def pad_fields_def rec_assign_def PROTO_def obj_set_def js_def
        is_array_index_def is_digit_def trim_def [of "[_]"] is_ws_def)
  have tr: "trim (js ''k'') = js ''k''" "trim (js ''v'') = js ''v''"
    by (simp_all add: trim_def is_ws_def js_def)
  have p: "parseCSVText (js ''k,v'' @ LF # ?line) = Inr [[(js ''k'', trim s), (js ''v'', js ''1'')]]"
    unfolding parseCSVText_def sb header2 [OF ne] by (simp add: tr rows rec)
  have h: "trim s \<noteq> [] \<Longrightarrow> \<not> is_ws (hd (trim s))"
    using trim_hd_not_ws [of s] by (cases "trim s") auto
  show ?thesis using p trim_all_ws trim_last_not_ws h by blast
qed


text \<open>C9 at the quoted fields \<open>" a "\<close> and \<open>"  "\<close>.\<close>

theorem quoted_field_trimmed_witness:
  \<open>parseCSVText (js (''k,v'' @ [CHR 0x0A] @ ''" a ",1'')) =
     Inr [[(js ''k'', js ''a''), (js ''v'', js ''1'')]] \<and>
   parseCSVText (js (''k,v'' @ [CHR 0x0A] @ ''"  ",1'')) =
     Inr [[(js ''k'', []), (js ''v'', js ''1'')]]\<close>
proof -
  have a: \<open>js ''k,v'' @ LF # quote (js '' a '') @ js '',1'' = js (''k,v'' @ [CHR 0x0A] @ ''" a ",1'')\<close>
    by (simp add: js_def quote_def escape_def)
  have b: \<open>js ''k,v'' @ LF # quote (js ''  '') @ js '',1'' = js (''k,v'' @ [CHR 0x0A] @ ''"  ",1'')\<close>
    by (simp add: js_def quote_def escape_def)
  have ta: "trim (js '' a '') = js ''a''" by (simp add: js_def trim_def is_ws_def)
  have wb: "list_all is_ws (js ''  '')" by (simp add: js_def is_ws_def)
  from quoted_field_trimmed [of "js ''  ''"] wb have tb: "trim (js ''  '') = []" by blast
  from quoted_field_trimmed [of "js '' a ''"] quoted_field_trimmed [of "js ''  ''"]
  show ?thesis unfolding a b ta tb by blast
qed

section \<open>Claims about the mapper\<close>

text \<open>
  C2 (as the code has it). On an unpolluted \<open>Object.prototype\<close> and for a record none of
  whose keys has a path segment \<open>__proto__\<close>, \<open>mapRecordToDb\<close> throws exactly in two
  cases: the trimmed \<open>name.firstName\<close>, \<open>name.lastName\<close> or \<open>age\<close> is missing or empty
  (\<open>Mandatory fields missing\<close>), or the trimmed \<open>age\<close> does not begin with an optionally
  signed decimal digit (\<open>Invalid age value\<close>). In every other case it returns a document:
  \<open>parseInt\<close> ignores whatever follows the leading digits.
\<close>

theorem mapRecordToDb_fails_iff:
  assumes "objs h 0 = proto_builtins"
    and "\<forall>k \<in> fst ` set r. PROTO \<notin> set (split_dot k)"
  defines "f \<equiv> trimmed_field r K_FIRST"
    and "l \<equiv> trimmed_field r K_LAST"
    and "a \<equiv> trimmed_field r K_AGE"
  shows "(f = [] \<or> l = [] \<or> a = [] \<longrightarrow> fst (mapRecordToDb h r) = Inl (MandatoryMissing f l a)) \<and>
         (f \<noteq> [] \<and> l \<noteq> [] \<and> a \<noteq> [] \<and> \<not> starts_with_integer a \<longrightarrow>
            fst (mapRecordToDb h r) = Inl (InvalidAge a)) \<and>
         (f \<noteq> [] \<and> l \<noteq> [] \<and> a \<noteq> [] \<and> starts_with_integer a \<longrightarrow>
            (\<exists>d. fst (mapRecordToDb h r) = Inr d))"
proof -
  have nan: "parseInt10 a = NaN \<longleftrightarrow> \<not> starts_with_integer a"
    unfolding a_def by (rule parseInt10_NaN_iff) (rule dropWhile_trimmed_field)
  have ok: "fst (map_entries h2 addr addl r) = None" for h2 addr addl
    using assms(2) by (rule map_entries_no_error)
  have ok': "map_entries h2 addr addl r \<noteq> (Some e, h3)" for h2 addr addl e h3
    using ok [of h2 addr addl] by auto
  show ?thesis
    unfolding mapRecordToDb_clean [OF assms(1)] Let_def f_def [symmetric] l_def [symmetric]
      a_def [symmetric]
    using nan ok' by (auto simp: new_object_def split: prod.splits option.splits)
qed

text \<open>The three cases of C2 at concrete records.\<close>

theorem mapRecordToDb_fails_iff_witness:
  "fst (mapRecordToDb initial_heap
          [(K_FIRST, js '' ''), (K_LAST, js ''B''), (K_AGE, js ''30''), (js ''address.city'', js ''X'')]) =
     Inl (MandatoryMissing [] (js ''B'') (js ''30'')) \<and>
   fst (mapRecordToDb initial_heap
          [(K_FIRST, js ''A''), (K_LAST, js ''B''), (K_AGE, js '' x1 ''), (js ''address.city'', js ''X'')]) =
     Inl (InvalidAge (js ''x1'')) \<and>
   (\<exists>d. fst (mapRecordToDb initial_heap
          [(K_FIRST, js ''A''), (K_LAST, js ''B''), (K_AGE, js ''-7 years''), (js ''address.city'', js ''X'')]) =
     Inr d)"
proof -
  let ?r1 = "[(K_FIRST, js '' ''), (K_LAST, js ''B''), (K_AGE, js ''30''), (js ''address.city'', js ''X'')]"
  let ?r2 = "[(K_FIRST, js ''A''), (K_LAST, js ''B''), (K_AGE, js '' x1 ''), (js ''address.city'', js ''X'')]"
  let ?r3 = "[(K_FIRST, js ''A''), (K_LAST, js ''B''), (K_AGE, js ''-7 years''), (js ''address.city'', js ''X'')]"
  have h: "objs initial_heap 0 = proto_builtins" by (simp add: initial_heap_def)
  have k1: "\<forall>k \<in> fst ` set ?r1. PROTO \<notin> set (split_dot k)" by code_simp
  have k2: "\<forall>k \<in> fst ` set ?r2. PROTO \<notin> set (split_dot k)" by code_simp
  have k3: "\<forall>k \<in> fst ` set ?r3. PROTO \<notin> set (split_dot k)" by code_simp
  have f1: "trimmed_field ?r1 K_FIRST = []" by code_simp
  have l1: "trimmed_field ?r1 K_LAST = js ''B''" by code_simp
  have a1: "trimmed_field ?r1 K_AGE = js ''30''" by code_simp
  have f2: "trimmed_field ?r2 K_FIRST \<noteq> []" by code_simp
  have l2: "trimmed_field ?r2 K_LAST \<noteq> []" by code_simp
  have a2: "trimmed_field ?r2 K_AGE = js ''x1''" by code_simp
  have n2: "js ''x1'' \<noteq> []" "\<not> starts_with_integer (js ''x1'')" by code_simp+
  have f3: "trimmed_field ?r3 K_FIRST \<noteq> []" by code_simp
  have l3: "trimmed_field ?r3 K_LAST \<noteq> []" by code_simp
  have a3: "trimmed_field ?r3 K_AGE \<noteq> []" "starts_with_integer (trimmed_field ?r3 K_AGE)" by code_simp+
  from mapRecordToDb_fails_iff [OF h k1] f1 l1 a1
  have "fst (mapRecordToDb initial_heap ?r1) = Inl (MandatoryMissing [] (js ''B'') (js ''30''))"
    by simp
  moreover from mapRecordToDb_fails_iff [OF h k2] f2 l2 a2 n2
  have "fst (mapRecordToDb initial_heap ?r2) = Inl (InvalidAge (js ''x1''))"
    by simp
  moreover from mapRecordToDb_fails_iff [OF h k3] f3 l3 a3
  have "\<exists>d. fst (mapRecordToDb initial_heap ?r3) = Inr d"
    by simp
  ultimately show ?thesis by blast
qed

text \<open>
  C2 as stated fails: the age \<open>30abc\<close> is not a string of decimal digits, and the record
  is mapped to a document of age 30.
\<close>

theorem mapRecordToDb_accepts_trailing_text:
  "fst (mapRecordToDb initial_heap
          [(K_FIRST, js ''A''), (K_LAST, js ''B''), (K_AGE, js ''30abc'')]) =
     Inr \<lparr>name = js ''A B'', age = Num 30, address = None, additional_info = None\<rparr>"
  by code_simp

text \<open>
  C4 (as the code has it). Every document \<open>mapRecordToDb\<close> returns has a non-empty name,
  made of the non-empty trimmed first name, one space and the non-empty trimmed last
  name, and an age that is \<open>parseInt\<close> of the trimmed age field and is never \<open>NaN\<close>: it
  is an integral Number or an infinity.
\<close>

theorem mapRecordToDb_document_invariant:
  assumes "mapRecordToDb h r = (Inr d, h')"
  shows "name d \<noteq> [] \<and>
         (\<exists>f l. rec_field h r K_FIRST = Inr f \<and> rec_field h r K_LAST = Inr l \<and>
                f \<noteq> [] \<and> l \<noteq> [] \<and> name d = f @ [SPACE] @ l) \<and>
         (\<exists>a. rec_field h r K_AGE = Inr a \<and> a \<noteq> [] \<and> starts_with_integer a \<and>
              age d = parseInt10 a) \<and>
         (age d = PosInf \<or> age d = NegInf \<or> (\<exists>n. age d = Num n))"
proof -
  from assms obtain f l a where
    f: "rec_field h r K_FIRST = Inr f" and l: "rec_field h r K_LAST = Inr l" and
    a: "rec_field h r K_AGE = Inr a"
    by (auto simp: mapRecordToDb_def split: sum.splits)
  from assms f l a have ne: "f \<noteq> []" "l \<noteq> []" "a \<noteq> []" and nan: "parseInt10 a \<noteq> NaN"
    by (auto simp: mapRecordToDb_def split: if_splits)
  from assms f l a ne nan have d: "name d = f @ [SPACE] @ l" "age d = parseInt10 a"
    by (auto simp: mapRecordToDb_def split: prod.splits option.splits)
  have swi: "starts_with_integer a"
    using nan parseInt10_NaN_iff [OF rec_field_trimmed [OF a]] by simp
  show ?thesis
    using f l a ne d nan swi parseInt10_cases [of a] by auto
qed

text \<open>C4 at a concrete record with surrounding white space in both names.\<close>

theorem mapRecordToDb_document_invariant_witness:
  "name \<lparr>name = js ''A B'', age = Num 30, address = Some 1, additional_info = None\<rparr> \<noteq> [] \<and>
   fst (mapRecordToDb initial_heap
     [(K_FIRST, js ''  A''), (K_LAST, js ''B ''), (K_AGE, js ''30''), (js ''address.city'', js ''X'')]) =
     Inr \<lparr>name = js ''A B'', age = Num 30, address = Some 1, additional_info = None\<rparr>"
proof -
  let ?r = "[(K_FIRST, js ''  A''), (K_LAST, js ''B ''), (K_AGE, js ''30''), (js ''address.city'', js ''X'')]"
  let ?d = "\<lparr>name = js ''A B'', age = Num 30, address = Some 1, additional_info = None\<rparr>"
  have e: "fst (mapRecordToDb initial_heap ?r) = Inr ?d" by code_simp
  then have "mapRecordToDb initial_heap ?r = (Inr ?d, snd (mapRecordToDb initial_heap ?r))"
    by (metis prod.collapse)
  from mapRecordToDb_document_invariant [OF this] e show ?thesis by blast
qed

text \<open>
  C4 as stated fails: an age of 310 digits denotes a value beyond the range of a double,
  \<open>parseInt\<close> returns \<open>Infinity\<close>, which is not \<open>NaN\<close>, and the document is constructed
  with an age that is not finite.
\<close>

theorem mapRecordToDb_infinite_age:
  "fst (mapRecordToDb initial_heap
          [(K_FIRST, js ''A''), (K_LAST, js ''B''), (K_AGE, 0x31 # replicate 309 0x30)]) =
     Inr \<lparr>name = js ''A B'', age = PosInf, address = None, additional_info = None\<rparr>"
  by code_simp

text \<open>
  C8 fails on the code. The header \<open>address.__proto__\<close> gives the record a key that
  starts with \<open>address.\<close>, but \<open>setNested\<close> assigns the string to the inherited setter
  \<open>__proto__\<close>, which stores nothing: the address object stays without keys and the
  document's \<open>address\<close> is null. Likewise the key \<open>__proto__.x\<close> is written into
  \<open>Object.prototype\<close>, and \<open>additional_info\<close> is null although the record has a key
  beyond the consumed ones.
\<close>

theorem mapRecordToDb_proto_address:
  "parseCSVText (js (''name.firstName,name.lastName,age,address.__proto__'' @ [CHR 0x0A] @ ''A,B,30,X'')) =
     Inr [[(K_FIRST, js ''A''), (K_LAST, js ''B''), (K_AGE, js ''30''),
           (js ''address.__proto__'', js ''X'')]] \<and>
   fst (mapRecordToDb initial_heap
          [(K_FIRST, js ''A''), (K_LAST, js ''B''), (K_AGE, js ''30''),
           (js ''address.__proto__'', js ''X'')]) =
     Inr \<lparr>name = js ''A B'', age = Num 30, address = None, additional_info = None\<rparr> \<and>
   fst (mapRecordToDb initial_heap
          [(K_FIRST, js ''A''), (K_LAST, js ''B''), (K_AGE, js ''30''),
           (js ''__proto__.x'', js ''X'')]) =
     Inr \<lparr>name = js ''A B'', age = Num 30, address = None, additional_info = None\<rparr>"
  by code_simp

section \<open>Claims about the loader\<close>

text \<open>
  A run used to exercise the loader's theorems: four data lines, the second without a
  first name, and a table that already holds one row.
\<close>

definition example_text :: jsstring where
  "example_text = js (''name.firstName,name.lastName,age'' @ [CHR 0x0A] @ ''A,B,5'' @ [CHR 0x0A] @
     '',E,30'' @ [CHR 0x0A] @ ''F,G,45'' @ [CHR 0x0A] @ ''H,I,65'')"

definition example_records :: "flatrecord list" where
  "example_records =
     map (\<lambda>(f, l, a). [(K_FIRST, js f), (K_LAST, js l), (K_AGE, js a)])
       [(''A'', ''B'', ''5''), ('''', ''E'', ''30''), (''F'', ''G'', ''45''), (''H'', ''I'', ''65'')]"

definition example_db :: database where
  "example_db =
     \<lparr>users = [\<lparr>u_name = js ''Z Z'', u_age = 50, u_address = None, u_additional_info = None\<rparr>],
      tx = NoTx, statements = []\<rparr>"

definition example_env :: "int \<Rightarrow> (nat \<Rightarrow> bool) \<Rightarrow> env" where
  "example_env b f = \<lparr>BATCH_SIZE = Num b, JSON_stringify = (\<lambda>h a. js ''{}''), insert_fails = f\<rparr>"

lemma example_parse: "parseCSVText example_text = Inr example_records"
  by code_simp





lemma example_rollback:
  "fst (importCsvFile (example_env 1 (\<lambda>n. n = 2)) initial_heap example_db example_text) =
     Inl (InsertFailed 2) \<and>
   snd (snd (importCsvFile (example_env 1 (\<lambda>n. n = 2)) initial_heap example_db example_text)) =
     (\<lparr>users = users example_db, tx = NoTx,
       statements = [Begin, Insert [(js ''A B'', Num 5, None, None)],
                     Insert [(js ''F G'', Num 45, None, None)], Rollback]\<rparr>, [3])"
  by code_simp

text \<open>
  C1. Take a client with no open transaction and a text that parses. The statements of
  the run are \<open>BEGIN\<close>, the inserts \<open>ins\<close> and a closing statement. If the database
  rejects one of the inserts, it is the last one sent: the rows sent so far are the first
  of the run's mapped documents, the run ends with \<open>ROLLBACK\<close>, the table holds exactly
  the rows it held before, no transaction stays open, and the error of that insert is what
  \<open>importCsvFile\<close> throws. If it rejects none, the rows of the inserts are, in order, all
  the mapped documents of the run, \<open>COMMIT\<close> follows the inserts and the table gains one
  row for every document, all of them together; only the queries of the report come after
  it.
\<close>

theorem importCsvFile_atomic:
  assumes "tx db = NoTx" and "parseCSVText text = Inr records"
    and "importCsvFile E h db text = (res, h', db', sk)"
  shows "\<exists>ins qs.
     tx db' = NoTx \<and>
     (if accepted_from E (Suc (length (statements db))) ins
      then statements db' = statements db @ Begin # map Insert ins @ Commit # qs \<and>
           inserts_of qs = [] \<and>
           map pkey (concat ins) = map dkey (mapped_docs h records) \<and>
           users db' = users db @ List.map_filter store_row (concat ins) \<and>
           length (users db') = length (users db) + length (mapped_docs h records) \<and>
           (\<forall>n. res \<noteq> Inl (InsertFailed n))
      else statements db' = statements db @ Begin # map Insert ins @ [Rollback] \<and>
           users db' = users db \<and> ins \<noteq> [] \<and>
           (\<exists>rest. map pkey (concat ins) @ rest = map dkey (mapped_docs h records)) \<and>
           accepted_from E (Suc (length (statements db))) (butlast ins) \<and>
           res = Inl (InsertFailed (length (statements db) + length ins)))"
proof -
  define st0 where "st0 = \<lparr>heap_of = h, db_of = query_begin db, batch = [], inserted = 0, skipped = []\<rparr>"
  define r1 where "r1 = fst (import_rows E 0 records st0)"
  define st1 where "st1 = snd (import_rows E 0 records st0)"
  have run: "import_rows E 0 records st0 = (r1, st1)" by (simp add: r1_def st1_def)
  have b: "tx (db_of st0) = InTx []" "statements (db_of st0) = statements db @ [Begin]"
    "users (db_of st0) = users db"
    using assms(1) by (simp_all add: st0_def query_begin_def)
  from import_rows_sent [OF b(1), of E 0 records] obtain ins1 where
    lo: "loop_outcome E (db_of st0) [] r1 (db_of st1) ins1" and
    lr: "loop_rows r1 ins1 (batch st1) (mapped_docs h records)"
    by (auto simp: r1_def st1_def st0_def)
  have all: "length (users db @ List.map_filter store_row (concat xs)) =
      length (users db) + length (mapped_docs h records)"
    if "accepted_from E n xs" and "map pkey (concat xs) = map dkey (mapped_docs h records)" for n xs
  proof -
    have "length (List.map_filter store_row (concat xs)) = length (concat xs)"
      using accepted_stored [OF that(1)] by (rule map_filter_all_Some)
    moreover have "length (concat xs) = length (mapped_docs h records)"
      using that(2) by (metis length_map)
    ultimately show ?thesis by simp
  qed
  let ?n = "Suc (length (statements db))"
  have len0: "length (statements (db_of st0)) = ?n" by (simp add: b)
  show ?thesis
  proof (cases r1)
    case (Some e)
    from lo Some have f: "statements (db_of st1) = statements db @ Begin # map Insert ins1"
      "users (db_of st1) = users db" "ins1 \<noteq> []" "accepted_from E ?n (butlast ins1)"
      "rejected E (?n + length ins1 - 1) (last ins1)" "e = InsertFailed (?n + length ins1 - 1)"
      by (simp_all add: loop_outcome_def b)
    have res: "res = Inl e" "db' = query_rollback (db_of st1)"
      using assms(2,3) run Some by (simp_all add: importCsvFile_def st0_def)
    have na: "\<not> accepted_from E ?n ins1" using not_accepted_last [OF f(3) f(5)] .
    from lr Some have pre: "\<exists>rest. map pkey (concat ins1) @ rest = map dkey (mapped_docs h records)"
      by (simp add: loop_rows_def)
    have "?n + length ins1 - 1 = length (statements db) + length ins1" using f(3) by simp
    then show ?thesis
      using f na res pre by (intro exI [of _ ins1]) (simp add: query_rollback_def)
  next
    case None
    from lo None have f: "statements (db_of st1) = statements db @ Begin # map Insert ins1"
      "users (db_of st1) = users db" "accepted_from E ?n ins1"
      "tx (db_of st1) = InTx (List.map_filter store_row (concat ins1))"
      by (simp_all add: loop_outcome_def b)
    from lr None have K: "map pkey (concat ins1) @ map dkey (batch st1) =
        map dkey (mapped_docs h records)"
      by (simp add: loop_rows_def)
    have KR: "map pkey (concat (ins1 @ [map (to_params E (heap_of st1)) (batch st1)])) =
        map dkey (mapped_docs h records)"
    proof -
      have "map pkey (map (to_params E (heap_of st1)) (batch st1)) = map dkey (batch st1)"
        by (simp add: pkey_to_params)
      with K show ?thesis by (simp del: map_map)
    qed
    define final where "final = (if batch st1 \<noteq> [] then insertBatch E (heap_of st1) (db_of st1) (batch st1)
                      else (None, db_of st1))"
    have fin: "importCsvFile E h db text =
       (case final of
          (Some e, db1) \<Rightarrow> (Inl e, heap_of st1, query_rollback db1, skipped st1)
        | (None, db1) \<Rightarrow>
            (case printAgeDistribution (query_commit db1) of
               (Inl e, db2) \<Rightarrow> (Inl e, heap_of st1, query_rollback db2, skipped st1)
             | (Inr rep, db2) \<Rightarrow> (Inr rep, heap_of st1, db2, skipped st1)))"
      using assms(2) run None by (simp add: importCsvFile_def st0_def final_def)
    let ?rows = "map (to_params E (heap_of st1)) (batch st1)"
    let ?m = "length (statements (db_of st1))"
    have m: "?m = ?n + length ins1" by (simp add: f)
    consider (empty) "batch st1 = []"
      | (rej) "batch st1 \<noteq> []" "rejected E ?m ?rows"
      | (acc) "batch st1 \<noteq> []" "\<not> rejected E ?m ?rows"
      by blast
    then show ?thesis
    proof cases
      case rej
      have "final = (Some (InsertFailed ?m),
            (db_of st1)\<lparr>statements := statements (db_of st1) @ [Insert ?rows], tx := Aborted\<rparr>)"
        using rej insertBatch_InTx [OF f(4) rej(1), of E "heap_of st1"] by (simp add: final_def)
      with fin assms(3) have res: "res = Inl (InsertFailed ?m)"
        "db' = query_rollback ((db_of st1)\<lparr>statements := statements (db_of st1) @ [Insert ?rows],
                 tx := Aborted\<rparr>)"
        by simp_all
      have na: "\<not> accepted_from E ?n (ins1 @ [?rows])"
        using rej(2) m by (simp add: accepted_from_append)
      have pre: "\<exists>rest. map pkey (concat (ins1 @ [?rows])) @ rest =
          map dkey (mapped_docs h records)"
        using KR by (intro exI [of _ "[]"]) simp
      show ?thesis
        using f na res m pre
        by (intro exI [of _ "ins1 @ [?rows]"]) (simp add: query_rollback_def)
    next
      case acc
      define db1 where "db1 = (db_of st1)\<lparr>statements := statements (db_of st1) @ [Insert ?rows],
            tx := InTx (List.map_filter store_row (concat ins1) @ List.map_filter store_row ?rows)\<rparr>"
      have fv: "final = (None, db1)"
        using acc insertBatch_InTx [OF f(4) acc(1), of E "heap_of st1"] by (simp add: final_def db1_def)
      obtain qs where q: "statements (snd (printAgeDistribution (query_commit db1))) =
            statements (query_commit db1) @ qs"
          "inserts_of qs = []"
          "users (snd (printAgeDistribution (query_commit db1))) = users (query_commit db1)"
          "tx (snd (printAgeDistribution (query_commit db1))) = tx (query_commit db1)"
        using printAgeDistribution_db [of "query_commit db1"] by blast
      have nf: "fst (printAgeDistribution (query_commit db1)) \<noteq> Inl (InsertFailed k)" for k
        using printAgeDistribution_db [of "query_commit db1" k] by blast
      have ok: "accepted_from E ?n (ins1 @ [?rows])"
        using acc(2) m f(3) by (simp add: accepted_from_append)
      have c: "statements (query_commit db1) = statements db @ Begin # map Insert (ins1 @ [?rows]) @ [Commit]"
        "users (query_commit db1) = users db @ List.map_filter store_row (concat (ins1 @ [?rows]))"
        "tx (query_commit db1) = NoTx"
        by (simp_all add: query_commit_def db1_def f map_filter_app)
      note ln = all [OF ok KR]
      obtain rr db2 where p: "printAgeDistribution (query_commit db1) = (rr, db2)"
        by (cases "printAgeDistribution (query_commit db1)")
      show ?thesis
      proof (cases rr)
        case (Inl e)
        with fin fv p assms(3) have "res = Inl e" "db' = query_rollback db2" by simp_all
        then show ?thesis
          using ok c q p nf Inl KR ln
          by (intro exI [of _ "ins1 @ [?rows]"] exI [of _ "qs @ [Rollback]"])
             (auto simp: query_rollback_def inserts_of_append)
      next
        case (Inr rep)
        with fin fv p assms(3) have "res = Inr rep" "db' = db2" by simp_all
        then show ?thesis
          using ok c q p KR ln
          by (intro exI [of _ "ins1 @ [?rows]"] exI [of _ qs]) auto
      qed
    next
      case empty
      have fv: "final = (None, db_of st1)" using empty by (simp add: final_def)
      let ?db1 = "db_of st1"
      obtain qs where q: "statements (snd (printAgeDistribution (query_commit ?db1))) =
            statements (query_commit ?db1) @ qs"
          "inserts_of qs = []"
          "users (snd (printAgeDistribution (query_commit ?db1))) = users (query_commit ?db1)"
          "tx (snd (printAgeDistribution (query_commit ?db1))) = tx (query_commit ?db1)"
        using printAgeDistribution_db [of "query_commit ?db1"] by blast
      have nf: "fst (printAgeDistribution (query_commit ?db1)) \<noteq> Inl (InsertFailed k)" for k
        using printAgeDistribution_db [of "query_commit ?db1" k] by blast
      have c: "statements (query_commit ?db1) = statements db @ Begin # map Insert ins1 @ [Commit]"
        "users (query_commit ?db1) = users db @ List.map_filter store_row (concat ins1)"
        "tx (query_commit ?db1) = NoTx"
        by (simp_all add: query_commit_def f)
      have KE: "map pkey (concat ins1) = map dkey (mapped_docs h records)"
        using K empty by simp
      note ln = all [OF f(3) KE]
      obtain rr db2 where p: "printAgeDistribution (query_commit ?db1) = (rr, db2)"
        by (cases "printAgeDistribution (query_commit ?db1)")
      show ?thesis
      proof (cases rr)
        case (Inl e)
        with fin fv p assms(3) have "res = Inl e" "db' = query_rollback db2" by simp_all
        then show ?thesis
          using f(3) c q p nf Inl KE ln
          by (intro exI [of _ ins1] exI [of _ "qs @ [Rollback]"])
             (auto simp: query_rollback_def inserts_of_append)
      next
        case (Inr rep)
        with fin fv p assms(3) have "res = Inr rep" "db' = db2" by simp_all
        then show ?thesis
          using f(3) c q p KE ln
          by (intro exI [of _ ins1] exI [of _ qs]) auto
      qed
    qed
  qed
qed

text \<open>
  C1 at the example run with batches of one row, where the database rejects the second
  insert: the first batch was accepted, and still no row of the run is in the table.
\<close>

theorem importCsvFile_atomic_witness:
  "fst (importCsvFile (example_env 1 (\<lambda>n. n = 2)) initial_heap example_db example_text) =
     Inl (InsertFailed 2) \<and>
   users (fst (snd (snd (importCsvFile (example_env 1 (\<lambda>n. n = 2)) initial_heap example_db
     example_text)))) = users example_db \<and>
   tx (fst (snd (snd (importCsvFile (example_env 1 (\<lambda>n. n = 2)) initial_heap example_db
     example_text)))) = NoTx"
proof -
  let ?R = "importCsvFile (example_env 1 (\<lambda>n. n = 2)) initial_heap example_db example_text"
  have h1: "tx example_db = NoTx" by (simp add: example_db_def)
  have h3: "?R = (fst ?R, fst (snd ?R), fst (snd (snd ?R)), snd (snd (snd ?R)))" by simp
  from importCsvFile_atomic [OF h1 example_parse h3]
  have "tx (fst (snd (snd ?R))) = NoTx" by blast
  moreover from example_rollback have "fst ?R = Inl (InsertFailed 2)" by blast
  moreover from example_rollback have "users (fst (snd (snd ?R))) = users example_db" by simp
  ultimately show ?thesis by blast
qed







section \<open>Claims across parser, mapper and loader\<close>

text \<open>
  C10. When the row loop stands at an empty line (a line feed, or a carriage return and a
  line feed) that is followed by more input, the parser does not drop it: it emits a
  record that has every header as a key (the name \<open>__proto__\<close> apart, which an assignment
  cannot create) with the empty string as value, and goes on with the rest. On an
  unmodified \<open>Object.prototype\<close> the mapper rejects that record with
  \<open>Mandatory fields missing\<close>, and the loop of the import reports the row number and goes
  on, leaving the batch and the database as they were.
\<close>

theorem interior_empty_line:
  assumes "rest \<noteq> []" and "objs (heap_of st) 0 = proto_builtins"
  shows "parse_rows hs (LF # rest) = build_rec hs [[]] # parse_rows hs rest \<and>
         parse_rows hs (CR # LF # rest) = build_rec hs [[]] # parse_rows hs rest \<and>
         fst ` set (build_rec hs [[]]) = set hs - {PROTO} \<and>
         (\<forall>p \<in> set (build_rec hs [[]]). snd p = []) \<and>
         mapRecordToDb (heap_of st) (build_rec hs [[]]) =
           (Inl (MandatoryMissing [] [] []), heap_of st) \<and>
         import_rows E i (build_rec hs [[]] # records) st =
           import_rows E (Suc i) records (st\<lparr>skipped := skipped st @ [i + 2]\<rparr>)"
proof -
  have m: "mapRecordToDb (heap_of st) (build_rec hs [[]]) =
      (Inl (MandatoryMissing [] [] []), heap_of st)"
    using assms(2) build_rec_empty(1) by (rule mapRecordToDb_empty)
  have "import_rows E i (build_rec hs [[]] # records) st =
      import_rows E (Suc i) records (st\<lparr>skipped := skipped st @ [i + 2]\<rparr>)"
    by (simp add: m)
  with m assms(1) show ?thesis
    by (simp add: empty_line_LF empty_line_CRLF build_rec_empty)
qed

text \<open>C10 at a file with an empty third line.\<close>

theorem interior_empty_line_witness:
  "parseCSVText (js (''name.firstName,name.lastName,age'' @ [CHR 0x0A] @ ''A,B,30'' @
      [CHR 0x0A, CHR 0x0A] @ ''C,D,40'')) =
     Inr [[(K_FIRST, js ''A''), (K_LAST, js ''B''), (K_AGE, js ''30'')],
          [(K_FIRST, []), (K_LAST, []), (K_AGE, [])],
          [(K_FIRST, js ''C''), (K_LAST, js ''D''), (K_AGE, js ''40'')]] \<and>
   parse_rows [K_FIRST, K_LAST, K_AGE] (LF # js ''C,D,40'') =
     [[(K_FIRST, []), (K_LAST, []), (K_AGE, [])],
      [(K_FIRST, js ''C''), (K_LAST, js ''D''), (K_AGE, js ''40'')]] \<and>
   mapRecordToDb initial_heap [(K_FIRST, []), (K_LAST, []), (K_AGE, [])] =
     (Inl (MandatoryMissing [] [] []), initial_heap)"
proof -
  let ?hs = "[K_FIRST, K_LAST, K_AGE]"
  let ?st = "\<lparr>heap_of = initial_heap, db_of = \<lparr>users = [], tx = NoTx, statements = []\<rparr>,
              batch = [], inserted = 0, skipped = []\<rparr>"
  have r: "js ''C,D,40'' \<noteq> []" by (simp add: js_def)
  have h: "objs (heap_of ?st) 0 = proto_builtins" by (simp add: initial_heap_def)
  have e: "build_rec ?hs [[]] = [(K_FIRST, []), (K_LAST, []), (K_AGE, [])]" by code_simp
  have c: "parse_rows ?hs (js ''C,D,40'') = [[(K_FIRST, js ''C''), (K_LAST, js ''D''), (K_AGE, js ''40'')]]"
    by code_simp
  have p: "parseCSVText (js (''name.firstName,name.lastName,age'' @ [CHR 0x0A] @ ''A,B,30'' @
      [CHR 0x0A, CHR 0x0A] @ ''C,D,40'')) =
     Inr [[(K_FIRST, js ''A''), (K_LAST, js ''B''), (K_AGE, js ''30'')],
          [(K_FIRST, []), (K_LAST, []), (K_AGE, [])],
          [(K_FIRST, js ''C''), (K_LAST, js ''D''), (K_AGE, js ''40'')]]"
    by code_simp
  from interior_empty_line [OF r h, of ?hs]
  have "parse_rows ?hs (LF # js ''C,D,40'') = build_rec ?hs [[]] # parse_rows ?hs (js ''C,D,40'')"
    and "mapRecordToDb (heap_of ?st) (build_rec ?hs [[]]) =
           (Inl (MandatoryMissing [] [] []), heap_of ?st)"
    by blast+
  then show ?thesis using p by (simp add: e c)
qed

section \<open>Claims about the report\<close>

definition four_ages :: database where
  "four_ages =
     \<lparr>users = map (\<lambda>a. \<lparr>u_name = js ''N N'', u_age = a, u_address = None, u_additional_info = None\<rparr>)
               [5, 25, 45, 65],
      tx = NoTx, statements = []\<rparr>"

definition no_rows :: database where
  "no_rows = \<lparr>users = [], tx = NoTx, statements = []\<rparr>"


text \<open>
  C7. The four conditions of the bucket query split the integers: every age satisfies
  exactly one of them, a negative age the first, so the four counts add up to the number
  of rows. With no rows the function reports \<open>No records\<close> after the count query alone.
  With at least one row (and fewer than \<open>2^31\<close>, the range of \<open>COUNT(*)::int\<close>) it sends
  the bucket query and reports, for each bucket, \<open>pct\<close> of its count, which is an integer
  nearest to \<open>100 * count / total\<close>: it differs from that value by at most one half. For
  the ages 5, 25, 45 and 65 the report is 25, 25, 25, 25.
\<close>

theorem age_report:
  fixes db :: database and a :: int
  defines "rows \<equiv> visible db"
  shows "(lt20 a \<or> btw20_40 a \<or> btw40_60 a \<or> gt60 a) \<and>
     \<not> (lt20 a \<and> btw20_40 a) \<and> \<not> (lt20 a \<and> btw40_60 a) \<and> \<not> (lt20 a \<and> gt60 a) \<and>
     \<not> (btw20_40 a \<and> btw40_60 a) \<and> \<not> (btw20_40 a \<and> gt60 a) \<and> \<not> (btw40_60 a \<and> gt60 a) \<and>
     (a < 0 \<longrightarrow> lt20 a) \<and>
     count_where lt20 rows + count_where btw20_40 rows + count_where btw40_60 rows +
       count_where gt60 rows = length rows \<and>
     (rows = [] \<longrightarrow>
        printAgeDistribution db = (Inr NoRecords, db\<lparr>statements := statements db @ [CountRows]\<rparr>)) \<and>
     (rows \<noteq> [] \<and> length rows < 2 ^ 31 \<longrightarrow>
        printAgeDistribution db =
          (Inr (Distribution (pct (length rows) (count_where lt20 rows))
                             (pct (length rows) (count_where btw20_40 rows))
                             (pct (length rows) (count_where btw40_60 rows))
                             (pct (length rows) (count_where gt60 rows))),
           db\<lparr>statements := statements db @ [CountRows, AgeBuckets]\<rparr>) \<and>
        (\<forall>c. 2 * \<bar>pct (length rows) (count_where c rows) * int (length rows) -
                    100 * int (count_where c rows)\<bar> \<le> int (length rows))) \<and>
     (map u_age rows = [5, 25, 45, 65] \<longrightarrow>
        fst (printAgeDistribution db) = Inr (Distribution 25 25 25 25))"
proof -
  have empty: "rows = [] \<Longrightarrow>
      printAgeDistribution db = (Inr NoRecords, db\<lparr>statements := statements db @ [CountRows]\<rparr>)"
    by (simp add: printAgeDistribution_def rows_def Let_def)
  have lt: "length rows < 2 ^ 31 \<Longrightarrow> \<not> (2::int) ^ 31 \<le> int (length rows)"
  proof -
    assume "length rows < 2 ^ 31"
    then have "int (length rows) < int (2 ^ 31)" by (simp only: of_nat_less_iff)
    then show ?thesis by simp
  qed
  have full: "rows \<noteq> [] \<Longrightarrow> length rows < 2 ^ 31 \<Longrightarrow>
      printAgeDistribution db =
          (Inr (Distribution (pct (length rows) (count_where lt20 rows))
                             (pct (length rows) (count_where btw20_40 rows))
                             (pct (length rows) (count_where btw40_60 rows))
                             (pct (length rows) (count_where gt60 rows))),
           db\<lparr>statements := statements db @ [CountRows, AgeBuckets]\<rparr>)"
    using lt by (simp add: printAgeDistribution_def rows_def [symmetric] Let_def)
  have near: "rows \<noteq> [] \<Longrightarrow> length rows < 2 ^ 31 \<Longrightarrow>
      2 * \<bar>pct (length rows) (count_where c rows) * int (length rows) -
            100 * int (count_where c rows)\<bar> \<le> int (length rows)" for c
    by (rule pct_nearest) (simp_all add: count_where_le)
  have ex: "fst (printAgeDistribution db) = Inr (Distribution 25 25 25 25)"
    if "map u_age rows = [5, 25, 45, 65]"
  proof -
    have "length (map u_age rows) = 4" by (simp only: that) simp
    then have len: "length rows = 4" by simp
    then have ne: "rows \<noteq> []" by auto
    have l: "length rows < 2 ^ 31" using len by simp
    have c: "count_where lt20 rows = 1" "count_where btw20_40 rows = 1"
      "count_where btw40_60 rows = 1" "count_where gt60 rows = 1"
      by (simp_all add: count_where_map that lt20_def btw20_40_def btw40_60_def gt60_def)
    show ?thesis using full [OF ne l] by (simp add: c len pct_quarter)
  qed
  show ?thesis
    using bucket_partition [of a] bucket_counts_total [of rows] empty full near ex
    by (simp add: lt20_def)
qed

text \<open>C7 at a table with the ages 5, 25, 45, 65 and at an empty table.\<close>

theorem age_report_witness:
  "fst (printAgeDistribution four_ages) = Inr (Distribution 25 25 25 25) \<and>
   printAgeDistribution no_rows = (Inr NoRecords, no_rows\<lparr>statements := [CountRows]\<rparr>)"
proof -
  have a: "map u_age (visible four_ages) = [5, 25, 45, 65]"
    by (simp add: four_ages_def visible_def)
  have b: "visible no_rows = []" by (simp add: no_rows_def visible_def)
  from age_report [of 0 four_ages] a
  have "fst (printAgeDistribution four_ages) = Inr (Distribution 25 25 25 25)" by blast
  moreover from age_report [of 0 no_rows] b
  have "printAgeDistribution no_rows =
      (Inr NoRecords, no_rows\<lparr>statements := statements no_rows @ [CountRows]\<rparr>)" by blast
  ultimately show ?thesis by (simp add: no_rows_def)
qed

end
